theory Spec2Isabelle
  imports Complex_Main "HOL-Library.Word"
begin

unbundle bit_operations_syntax

section \<open>Machine types of the Go program\<close>

text \<open>
  A Go \<open>string\<close> is a sequence of bytes; it is modelled as a \<open>string\<close> (a list of
  8-bit characters).  A \<open>rune\<close> is an \<open>int32\<close>, \<open>uint32\<close> and \<open>uint8\<close> are words, and
  \<open>int\<close> is the 64-bit signed integer of the usual platforms.  \<open>float64\<close> is idealised
  as \<open>real\<close>: rounding, overflow to infinity and NaN are outside the model.
\<close>

type_synonym uint8 = "8 word"
type_synonym uint32 = "32 word"
type_synonym rune = "32 word"
type_synonym go_int = "64 word"
type_synonym float64 = real

section \<open>Iterating over a string: \<open>for _, c := range seed\<close>\<close>

text \<open>
  Go's \<open>range\<close> over a string decodes UTF-8: each iteration yields one code point and
  advances by the width of its encoding; a byte that does not start a well-formed
  encoding yields \<open>U+FFFD\<close> and advances by one byte.  \<open>decoderune\<close> returns the rune
  and the number of bytes consumed at the head of a non-empty string.
\<close>

definition RuneError :: rune where
  "RuneError = 0xFFFD"

definition is_cont :: "uint8 \<Rightarrow> bool" where
  "is_cont b = (0x80 \<le> b \<and> b \<le> 0xBF)"

fun decoderune :: "uint8 list \<Rightarrow> rune \<times> nat" where
  "decoderune [] = (RuneError, 1)"
| "decoderune (b0 # bs) =
     (if b0 < 0x80 then (ucast b0, 1)
      else if 0xC0 \<le> b0 \<and> b0 < 0xE0 then
        (case bs of
           b1 # _ \<Rightarrow>
             (let r = push_bit 6 (ucast (b0 AND 0x1F)) OR ucast (b1 AND 0x3F) :: rune
              in if is_cont b1 \<and> 0x7F < r then (r, 2) else (RuneError, 1))
         | _ \<Rightarrow> (RuneError, 1))
      else if 0xE0 \<le> b0 \<and> b0 < 0xF0 then
        (case bs of
           b1 # b2 # _ \<Rightarrow>
             (let r = push_bit 12 (ucast (b0 AND 0x0F)) OR push_bit 6 (ucast (b1 AND 0x3F))
                      OR ucast (b2 AND 0x3F) :: rune
              in if is_cont b1 \<and> is_cont b2 \<and> 0x7FF < r \<and> \<not> (0xD800 \<le> r \<and> r \<le> 0xDFFF)
                 then (r, 3) else (RuneError, 1))
         | _ \<Rightarrow> (RuneError, 1))
      else if 0xF0 \<le> b0 \<and> b0 < 0xF8 then
        (case bs of
           b1 # b2 # b3 # _ \<Rightarrow>
             (let r = push_bit 18 (ucast (b0 AND 0x07)) OR push_bit 12 (ucast (b1 AND 0x3F))
                      OR push_bit 6 (ucast (b2 AND 0x3F)) OR ucast (b3 AND 0x3F) :: rune
              in if is_cont b1 \<and> is_cont b2 \<and> is_cont b3 \<and> 0xFFFF < r \<and> r \<le> 0x10FFFF
                 then (r, 4) else (RuneError, 1))
         | _ \<Rightarrow> (RuneError, 1))
      else (RuneError, 1))"

fun range_runes :: "uint8 list \<Rightarrow> rune list" where
  "range_runes [] = []"
| "range_runes (b0 # bs) =
     (case decoderune (b0 # bs) of
        (r, w) \<Rightarrow> r # range_runes (drop (w - 1) bs))"

definition bytes_of :: "string \<Rightarrow> uint8 list" where
  "bytes_of s = map of_char s"

section \<open>The seed hash\<close>

text \<open>
  \<^verbatim>\<open>func hash(seed string) uint32 {
      h := uint32(2166136261)
      for _, c := range seed { h = (h * 16777619) ^ uint32(c) }
      return h }\<close>
  The loop variable \<open>c\<close> is a rune; \<open>uint32(c)\<close> keeps its 32 bits.
\<close>

fun hash_loop :: "uint32 \<Rightarrow> rune list \<Rightarrow> uint32" where
  "hash_loop h [] = h"
| "hash_loop h (c # cs) = hash_loop ((h * 16777619) XOR c) cs"

definition hash :: "string \<Rightarrow> uint32" where
  "hash seed = hash_loop 2166136261 (range_runes (bytes_of seed))"

text \<open>The fold that the specification describes, over any sequence of 32-bit values.\<close>

definition fnv_fold :: "uint32 list \<Rightarrow> uint32" where
  "fnv_fold cs = foldl (\<lambda>h c. (h * 16777619) XOR c) 2166136261 cs"

section \<open>Expression trees\<close>

text \<open>
  The interface \<open>ColorFunc\<close> and its eight implementations, as one datatype.  The
  fields keep the order of the Go structs: \<open>Sin phase freq sub\<close>, \<open>Mix w left right\<close>,
  \<open>FractalNoise scale sub\<close>.
\<close>

datatype ColorFunc =
    Constant float64 float64 float64
  | VariableX
  | VariableY
  | Sin float64 float64 ColorFunc
  | Product ColorFunc ColorFunc
  | Mix float64 ColorFunc ColorFunc
  | Well ColorFunc
  | FractalNoise float64 ColorFunc

text \<open>\<open>math.Pow(v, 2)\<close> is the square of \<open>v\<close>.\<close>

definition well :: "float64 \<Rightarrow> float64" where
  "well v = 1 - 2 / (1 + v ^ 2)"

definition smooth :: "float64 \<Rightarrow> float64" where
  "smooth v = 0.5 * (sin (5 * v) + cos (5 * v))"

fun Eval :: "ColorFunc \<Rightarrow> float64 \<Rightarrow> float64 \<Rightarrow> float64 \<times> float64 \<times> float64" where
  "Eval (Constant r g b) x y = (r, g, b)"
| "Eval VariableX x y = (x, x, x)"
| "Eval VariableY x y = (y, y, y)"
| "Eval (Sin phase freq sub) x y =
     (case Eval sub x y of
        (r, g, b) \<Rightarrow> (sin (phase + freq * r), sin (phase + freq * g), sin (phase + freq * b)))"
| "Eval (Product left right) x y =
     (case Eval left x y of
        (r1, g1, b1) \<Rightarrow>
          (case Eval right x y of
             (r2, g2, b2) \<Rightarrow> (r1 * r2, g1 * g2, b1 * b2)))"
| "Eval (Mix w left right) x y =
     (case Eval left x y of
        (r1, g1, b1) \<Rightarrow>
          (case Eval right x y of
             (r2, g2, b2) \<Rightarrow>
               (w * r1 + (1 - w) * r2, w * g1 + (1 - w) * g2, w * b1 + (1 - w) * b2)))"
| "Eval (Well sub) x y =
     (case Eval sub x y of (r, g, b) \<Rightarrow> (well r, well g, well b))"
| "Eval (FractalNoise scale sub) x y =
     (case Eval sub (x * scale) (y * scale) of (r, g, b) \<Rightarrow> (smooth r, smooth g, smooth b))"

text \<open>Lengths of the longest and of the shortest path from the root to a leaf.\<close>

fun max_depth :: "ColorFunc \<Rightarrow> nat" where
  "max_depth (Sin p f sub) = Suc (max_depth sub)"
| "max_depth (Product l r) = Suc (max (max_depth l) (max_depth r))"
| "max_depth (Mix w l r) = Suc (max (max_depth l) (max_depth r))"
| "max_depth (Well sub) = Suc (max_depth sub)"
| "max_depth (FractalNoise sc sub) = Suc (max_depth sub)"
| "max_depth _ = 0"

fun min_depth :: "ColorFunc \<Rightarrow> nat" where
  "min_depth (Sin p f sub) = Suc (min_depth sub)"
| "min_depth (Product l r) = Suc (min (min_depth l) (min_depth r))"
| "min_depth (Mix w l r) = Suc (min (min_depth l) (min_depth r))"
| "min_depth (Well sub) = Suc (min_depth sub)"
| "min_depth (FractalNoise sc sub) = Suc (min_depth sub)"
| "min_depth _ = 0"

fun is_leaf :: "ColorFunc \<Rightarrow> bool" where
  "is_leaf (Constant r g b) = True"
| "is_leaf VariableX = True"
| "is_leaf VariableY = True"
| "is_leaf _ = False"

section \<open>The random source\<close>

text \<open>
  \<open>math/rand\<close> is not part of the program: its global source is a state \<open>'s\<close> with the
  three operations the program calls.  Every operation returns the drawn value and the
  next state.
\<close>

record 's rand_source =
  Seed :: "64 word \<Rightarrow> 's"
  Float64 :: "'s \<Rightarrow> float64 \<times> 's"
  Intn :: "go_int \<Rightarrow> 's \<Rightarrow> go_int \<times> 's"

section \<open>The random tree builder\<close>

text \<open>
  The guard \<open>maxDepth == 0 || (minDepth <= 0 && rand.Float64() < 0.2)\<close>: by short-circuit
  evaluation the draw happens only when \<open>maxDepth\<close> is not 0 and \<open>minDepth <= 0\<close>.
\<close>

definition leaf_guard :: "'s rand_source \<Rightarrow> go_int \<Rightarrow> go_int \<Rightarrow> 's \<Rightarrow> bool \<times> 's" where
  "leaf_guard rs minDepth maxDepth s =
     (if maxDepth = 0 then (True, s)
      else if minDepth \<le>s 0 then (case Float64 rs s of (f, s') \<Rightarrow> (f < 0.2, s'))
      else (False, s))"

definition Generate_leaf :: "'s rand_source \<Rightarrow> 's \<Rightarrow> ColorFunc \<times> 's" where
  "Generate_leaf rs s =
     (case Intn rs 3 s of
        (k, s1) \<Rightarrow>
          if k = 0 then (VariableX, s1)
          else if k = 1 then (VariableY, s1)
          else (case Float64 rs s1 of
                  (r, s2) \<Rightarrow>
                    (case Float64 rs s2 of
                       (g, s3) \<Rightarrow>
                         (case Float64 rs s3 of
                            (b, s4) \<Rightarrow> (Constant (r * 2 - 1) (g * 2 - 1) (b * 2 - 1), s4)))))"

function Generate :: "'s rand_source \<Rightarrow> go_int \<Rightarrow> go_int \<Rightarrow> 's \<Rightarrow> ColorFunc \<times> 's" where
  "Generate rs minDepth maxDepth s =
     (case leaf_guard rs minDepth maxDepth s of
        (stop, s0) \<Rightarrow>
          if stop then Generate_leaf rs s0
          else
            (case Intn rs 4 s0 of
               (k, s1) \<Rightarrow>
                 if k = 0 then
                   (case Float64 rs s1 of
                      (p, s2) \<Rightarrow>
                        (case Float64 rs s2 of
                           (f, s3) \<Rightarrow>
                             (case Generate rs (minDepth - 1) (maxDepth - 1) s3 of
                                (sub, s4) \<Rightarrow> (Sin (p * 2 * pi) (0.5 + f * 3.0) sub, s4))))
                 else if k = 1 then
                   (case Float64 rs s1 of
                      (w, s2) \<Rightarrow>
                        (case Generate rs (minDepth - 1) (maxDepth - 1) s2 of
                           (left, s3) \<Rightarrow>
                             (case Generate rs (minDepth - 1) (maxDepth - 1) s3 of
                                (right, s4) \<Rightarrow> (Mix w left right, s4))))
                 else if k = 2 then
                   (case Generate rs (minDepth - 1) (maxDepth - 1) s1 of
                      (left, s2) \<Rightarrow>
                        (case Generate rs (minDepth - 1) (maxDepth - 1) s2 of
                           (right, s3) \<Rightarrow> (Product left right, s3)))
                 else
                   (case Float64 rs s1 of
                      (sc, s2) \<Rightarrow>
                        (case Generate rs (minDepth - 1) (maxDepth - 1) s2 of
                           (sub, s3) \<Rightarrow> (FractalNoise (0.5 + sc * 2.0) sub, s3)))))"
  by pat_completeness auto

lemma leaf_guard_continue: "leaf_guard rs minDepth maxDepth s = (False, s0) \<Longrightarrow> maxDepth \<noteq> 0"
  by (auto simp: leaf_guard_def)

termination Generate
proof (relation "measure (\<lambda>(rs, minDepth, maxDepth, s). unat maxDepth)")
  show "wf (measure (\<lambda>(rs, minDepth, maxDepth, s). unat maxDepth))"
    by simp
qed (auto dest!: sym [THEN leaf_guard_continue] leaf_guard_continue simp: unat_minus_one unat_gt_0)

declare Generate.simps [simp del]

section \<open>Pixels and images\<close>

text \<open>
  \<open>color.RGBA\<close> and a square \<open>image.RGBA\<close> with bounds \<open>Rect(0, 0, size, size)\<close>.
  The pixel buffer is a store from coordinates to colours; \<open>Set\<close> ignores a point
  outside the bounds and \<open>RGBAAt\<close> reads the zero colour there, as the library does.
  The field \<open>writes\<close> is not in the program: it counts, for every pixel, the stores that
  \<open>Set\<close> has made to it.
  Sizes, coordinates and worker numbers are Go \<open>int\<close>s that stay between 0 and \<open>size\<close>
  in every loop below, so they are plain integers; the one product that can leave the
  64-bit range, \<open>size * size\<close>, wraps.  The parameter \<open>size\<close> of the source is written
  \<open>sz\<close>.
\<close>

record RGBA =
  R :: uint8
  G :: uint8
  B :: uint8
  A :: uint8

record RGBA_image =
  bounds :: int
  pix :: "int \<times> int \<Rightarrow> RGBA"
  writes :: "int \<times> int \<Rightarrow> nat"

definition NewRGBA :: "int \<Rightarrow> RGBA_image" where
  "NewRGBA sz =
     \<lparr>bounds = sz, pix = (\<lambda>p. \<lparr>R = 0, G = 0, B = 0, A = 0\<rparr>), writes = (\<lambda>p. 0)\<rparr>"

definition in_bounds :: "RGBA_image \<Rightarrow> int \<Rightarrow> int \<Rightarrow> bool" where
  "in_bounds img px py = (0 \<le> px \<and> px < bounds img \<and> 0 \<le> py \<and> py < bounds img)"

definition Set :: "RGBA_image \<Rightarrow> int \<Rightarrow> int \<Rightarrow> RGBA \<Rightarrow> RGBA_image" where
  "Set img px py c =
     (if in_bounds img px py
      then img\<lparr>pix := (pix img)((px, py) := c),
               writes := (writes img)((px, py) := Suc (writes img (px, py)))\<rparr>
      else img)"

definition RGBAAt :: "RGBA_image \<Rightarrow> int \<Rightarrow> int \<Rightarrow> RGBA" where
  "RGBAAt img px py =
     (if in_bounds img px py then pix img (px, py) else \<lparr>R = 0, G = 0, B = 0, A = 0\<rparr>)"

text \<open>Integer division of Go truncates towards zero.\<close>

definition go_quot :: "int \<Rightarrow> int \<Rightarrow> int" where
  "go_quot a b = (if (a < 0) = (b < 0) then \<bar>a\<bar> div \<bar>b\<bar> else - (\<bar>a\<bar> div \<bar>b\<bar>))"

text \<open>The product of two \<open>int\<close>s, wrapping at 64 bits.\<close>

definition go_mul :: "int \<Rightarrow> int \<Rightarrow> int" where
  "go_mul a b = sint (word_of_int a * word_of_int b :: go_int)"

text \<open>
  The conversion \<open>uint8(v)\<close> of a \<open>float64\<close> discards the fraction (truncation towards
  zero); the value is then stored in 8 bits.
\<close>

definition trunc :: "float64 \<Rightarrow> int" where
  "trunc v = (if 0 \<le> v then \<lfloor>v\<rfloor> else \<lceil>v\<rceil>)"

definition uint8_of_float :: "float64 \<Rightarrow> uint8" where
  "uint8_of_float v = word_of_int (trunc v)"

definition normalize :: "float64 \<Rightarrow> float64" where
  "normalize v = (if v < -1 then -1 else if v > 1 then 1 else v)"

text \<open>The body of the two pixel loops: the colour stored at \<open>(px, py)\<close>.\<close>

definition pixel_color :: "ColorFunc \<Rightarrow> int \<Rightarrow> int \<Rightarrow> int \<Rightarrow> RGBA" where
  "pixel_color art sz px py =
     (let x = 2 * real_of_int px / real_of_int sz - 1;
          y = 2 * real_of_int py / real_of_int sz - 1
      in case Eval art x y of
           (r, g, b) \<Rightarrow>
             (let r' = normalize r; g' = normalize g; b' = normalize b
              in \<lparr>R = uint8_of_float (128 + r' * 127),
                  G = uint8_of_float (128 + g' * 127),
                  B = uint8_of_float (128 + b' * 127),
                  A = 255\<rparr>))"

section \<open>Rasterisation\<close>

text \<open>\<open>for px := 0; px < size; px++ { ... img.Set(px, py, color) }\<close>\<close>

function px_loop :: "ColorFunc \<Rightarrow> int \<Rightarrow> int \<Rightarrow> int \<Rightarrow> RGBA_image \<Rightarrow> RGBA_image" where
  "px_loop art sz py px img =
     (if px < sz then px_loop art sz py (px + 1) (Set img px py (pixel_color art sz px py))
      else img)"
  by pat_completeness auto
termination
  by (relation "measure (\<lambda>(art, sz, py, px, img). nat (sz - px))") auto

declare px_loop.simps [simp del]

text \<open>\<open>for py := startRow; py < endRow; py++ { ... }\<close>\<close>

function py_loop :: "ColorFunc \<Rightarrow> int \<Rightarrow> int \<Rightarrow> int \<Rightarrow> RGBA_image \<Rightarrow> RGBA_image" where
  "py_loop art sz endRow py img =
     (if py < endRow then py_loop art sz endRow (py + 1) (px_loop art sz py 0 img)
      else img)"
  by pat_completeness auto
termination
  by (relation "measure (\<lambda>(art, sz, endRow, py, img). nat (endRow - py))") auto

declare py_loop.simps [simp del]

text \<open>The rows of one worker, and the goroutine that one worker runs.\<close>

definition startRow :: "int \<Rightarrow> int \<Rightarrow> int \<Rightarrow> int" where
  "startRow sz numWorkers worker = worker * go_quot sz numWorkers"

definition endRow :: "int \<Rightarrow> int \<Rightarrow> int \<Rightarrow> int" where
  "endRow sz numWorkers worker =
     (if worker = numWorkers - 1 then sz
      else startRow sz numWorkers worker + go_quot sz numWorkers)"

definition worker_body :: "ColorFunc \<Rightarrow> int \<Rightarrow> int \<Rightarrow> int \<Rightarrow> RGBA_image \<Rightarrow> RGBA_image" where
  "worker_body art sz numWorkers worker img =
     py_loop art sz (endRow sz numWorkers worker) (startRow sz numWorkers worker) img"

text \<open>
  The goroutines started by \<open>for worker := 0; worker < numWorkers; worker++\<close> run in an
  order the scheduler chooses; \<open>wg.Wait()\<close> returns when all have finished.  A schedule is
  the list of workers in the order in which they run.
\<close>

definition run_schedule :: "ColorFunc \<Rightarrow> int \<Rightarrow> int \<Rightarrow> int list \<Rightarrow> RGBA_image \<Rightarrow> RGBA_image" where
  "run_schedule art sz numWorkers sched img =
     foldl (\<lambda>im worker. worker_body art sz numWorkers worker im) img sched"

definition rasterize :: "ColorFunc \<Rightarrow> int \<Rightarrow> int \<Rightarrow> RGBA_image" where
  "rasterize art sz numWorkers =
     run_schedule art sz numWorkers [0..numWorkers - 1] (NewRGBA sz)"

section \<open>The diversity metric\<close>

record totals =
  rTotal :: float64
  gTotal :: float64
  bTotal :: float64
  rSq :: float64
  gSq :: float64
  bSq :: float64

definition add_pixel :: "RGBA \<Rightarrow> totals \<Rightarrow> totals" where
  "add_pixel c t =
     (let r = real (unat (R c)); g = real (unat (G c)); b = real (unat (B c))
      in \<lparr>rTotal = rTotal t + r, gTotal = gTotal t + g, bTotal = bTotal t + b,
          rSq = rSq t + r * r, gSq = gSq t + g * g, bSq = bSq t + b * b\<rparr>)"

function var_px_loop :: "RGBA_image \<Rightarrow> int \<Rightarrow> int \<Rightarrow> int \<Rightarrow> totals \<Rightarrow> totals" where
  "var_px_loop img sz py px t =
     (if px < sz then var_px_loop img sz py (px + 1) (add_pixel (RGBAAt img px py) t)
      else t)"
  by pat_completeness auto
termination
  by (relation "measure (\<lambda>(img, sz, py, px, t). nat (sz - px))") auto

declare var_px_loop.simps [simp del]

function var_py_loop :: "RGBA_image \<Rightarrow> int \<Rightarrow> int \<Rightarrow> totals \<Rightarrow> totals" where
  "var_py_loop img sz py t =
     (if py < sz then var_py_loop img sz (py + 1) (var_px_loop img sz py 0 t)
      else t)"
  by pat_completeness auto
termination
  by (relation "measure (\<lambda>(img, sz, py, t). nat (sz - py))") auto

declare var_py_loop.simps [simp del]

definition calculateColorVariance :: "RGBA_image \<Rightarrow> int \<Rightarrow> float64" where
  "calculateColorVariance img sz =
     (let pixelCount = real_of_int (go_mul sz sz);
          t = var_py_loop img sz 0
                \<lparr>rTotal = 0, gTotal = 0, bTotal = 0, rSq = 0, gSq = 0, bSq = 0\<rparr>;
          rMean = rTotal t / pixelCount;
          gMean = gTotal t / pixelCount;
          bMean = bTotal t / pixelCount
      in sqrt ((rSq t / pixelCount - rMean * rMean) + (gSq t / pixelCount - gMean * gMean)
               + (bSq t / pixelCount - bMean * bMean)))"

section \<open>The quality gate\<close>

text \<open>
  What \<open>CreateImage\<close> prints: the tree of each attempt, the retry notice and the final
  warning.  The state of the loop is the image pointer (\<open>nil\<close> before the first attempt),
  the last metric, the random source and the output so far.  \<open>attempt\<close> is the body of
  the loop up to the test of the metric.
\<close>

datatype event = Tree_printed string ColorFunc | Retrying | Warning

record 's gate_state =
  img :: "RGBA_image option"
  variance :: float64
  rng :: 's
  out :: "event list"
  accepted :: bool

definition attempt :: "'s rand_source \<Rightarrow> int \<Rightarrow> string \<Rightarrow> int \<Rightarrow> 's gate_state \<Rightarrow> 's gate_state" where
  "attempt rs numWorkers seed sz st =
     (case Generate rs 10 30 (rng st) of
        (art, s') \<Rightarrow>
          (let im = rasterize art sz numWorkers
           in st\<lparr>img := Some im, variance := calculateColorVariance im sz, rng := s',
                 out := out st @ [Tree_printed seed art]\<rparr>))"

function attempts_loop ::
  "'s rand_source \<Rightarrow> int \<Rightarrow> string \<Rightarrow> int \<Rightarrow> nat \<Rightarrow> 's gate_state \<Rightarrow> 's gate_state" where
  "attempts_loop rs numWorkers seed sz attempts st =
     (if attempts < 3 then
        (let st' = attempt rs numWorkers seed sz st
         in if variance st' > 30.0 then st'\<lparr>accepted := True\<rparr>
            else attempts_loop rs numWorkers seed sz (attempts + 1)
                   (st'\<lparr>out := out st' @ [Retrying]\<rparr>))
      else st)"
  by pat_completeness auto
termination
  by (relation "measure (\<lambda>(rs, numWorkers, seed, sz, attempts, st). 3 - attempts)") auto

declare attempts_loop.simps [simp del]

text \<open>
  \<open>numWorkers\<close> is \<open>runtime.GOMAXPROCS(0)\<close>, at least 1.  The field \<open>accepted\<close> records
  that the loop was left by \<open>break\<close>.
\<close>

definition CreateImage :: "'s rand_source \<Rightarrow> int \<Rightarrow> string \<Rightarrow> int \<Rightarrow> 's gate_state" where
  "CreateImage rs numWorkers seed sz =
     (let st = attempts_loop rs numWorkers seed sz 0
                 \<lparr>img = None, variance = 0, rng = Seed rs (ucast (hash seed)), out = [],
                  accepted = False\<rparr>
      in if variance st \<le> 50.0 then st\<lparr>out := out st @ [Warning]\<rparr> else st)"

section \<open>Auxiliary notions of the statements\<close>

text \<open>Applying a function to each of the three channels.\<close>

definition map3 :: "('a \<Rightarrow> 'b) \<Rightarrow> 'a \<times> 'a \<times> 'a \<Rightarrow> 'b \<times> 'b \<times> 'b" where
  "map3 f t = (case t of (r, g, b) \<Rightarrow> (f r, f g, f b))"

text \<open>The pixels that the loop over \<open>px\<close> stores, from \<open>px\<close> on in row \<open>py\<close>.\<close>

definition row_hit :: "RGBA_image \<Rightarrow> int \<Rightarrow> int \<Rightarrow> int \<Rightarrow> int \<times> int \<Rightarrow> bool" where
  "row_hit im sz py px q = (snd q = py \<and> px \<le> fst q \<and> fst q < sz \<and> in_bounds im (fst q) py)"

text \<open>The pixels that the loop over \<open>py\<close> stores, from row \<open>py\<close> up to \<open>endRow\<close>.\<close>

definition band_hit :: "RGBA_image \<Rightarrow> int \<Rightarrow> int \<Rightarrow> int \<Rightarrow> int \<times> int \<Rightarrow> bool" where
  "band_hit im sz e py q = (py \<le> snd q \<and> snd q < e \<and> 0 \<le> fst q \<and> fst q < sz \<and> in_bounds im (fst q) (snd q))"

text \<open>Row \<open>py\<close> belongs to the band of a worker.\<close>

definition in_band :: "int \<Rightarrow> int \<Rightarrow> int \<Rightarrow> int \<Rightarrow> bool" where
  "in_band sz numWorkers worker py =
     (startRow sz numWorkers worker \<le> py \<and> py < endRow sz numWorkers worker)"

text \<open>The pixels of a row that a worker stores: those inside the bounds.\<close>

definition painted :: "RGBA_image \<Rightarrow> int \<Rightarrow> int \<times> int \<Rightarrow> bool" where
  "painted im sz q = (0 \<le> fst q \<and> fst q < sz \<and> in_bounds im (fst q) (snd q))"

text \<open>A schedule on which every worker runs exactly once.\<close>

definition is_schedule :: "int \<Rightarrow> int list \<Rightarrow> bool" where
  "is_schedule numWorkers sched = (distinct sched \<and> set sched = {0..<numWorkers})"

text \<open>The coordinates of the image.\<close>

definition in_square :: "int \<Rightarrow> int \<times> int \<Rightarrow> bool" where
  "in_square sz q = (0 \<le> fst q \<and> fst q < sz \<and> 0 \<le> snd q \<and> snd q < sz)"

text \<open>The image in which every pixel of the square has been stored exactly once, with the colour computed for its coordinates.\<close>

definition full_image :: "ColorFunc \<Rightarrow> int \<Rightarrow> RGBA_image" where
  "full_image art sz =
     \<lparr>bounds = sz,
      pix = (\<lambda>q. if in_square sz q then pixel_color art sz (fst q) (snd q)
                 else \<lparr>R = 0, G = 0, B = 0, A = 0\<rparr>),
      writes = (\<lambda>q. if in_square sz q then 1 else 0)\<rparr>"


text \<open>
  The channels of a stored pixel as numbers, their sums over the \<open>size * size\<close> pixels
  that the metric reads, and their means.
\<close>

definition chanR :: "RGBA \<Rightarrow> real" where "chanR c = real (unat (R c))"
definition chanG :: "RGBA \<Rightarrow> real" where "chanG c = real (unat (G c))"
definition chanB :: "RGBA \<Rightarrow> real" where "chanB c = real (unat (B c))"

definition pixel_sum :: "(RGBA \<Rightarrow> real) \<Rightarrow> RGBA_image \<Rightarrow> int \<Rightarrow> real" where
  "pixel_sum f im sz = (\<Sum>py\<in>{0..<sz}. \<Sum>px\<in>{0..<sz}. f (RGBAAt im px py))"

definition mean :: "(RGBA \<Rightarrow> real) \<Rightarrow> RGBA_image \<Rightarrow> int \<Rightarrow> real" where
  "mean f im sz = pixel_sum f im sz / real_of_int (sz * sz)"

text \<open>The trees printed in an output, in the order of the attempts, and the metric of a tree.\<close>

fun trees_of :: "event list \<Rightarrow> ColorFunc list" where
  "trees_of [] = []"
| "trees_of (Tree_printed s art # es) = art # trees_of es"
| "trees_of (e # es) = trees_of es"

definition metric_of :: "ColorFunc \<Rightarrow> int \<Rightarrow> int \<Rightarrow> float64" where
  "metric_of art sz numWorkers = calculateColorVariance (rasterize art sz numWorkers) sz"

text \<open>
  The trees that \<open>n\<close> successive calls \<open>Generate(10, 30)\<close> build when the random source
  is in state \<open>s\<close> before the first of them and nothing else draws from it in between,
  and the state that they leave.
\<close>

fun gen_trees :: "'s rand_source \<Rightarrow> 's \<Rightarrow> nat \<Rightarrow> ColorFunc list" where
  "gen_trees rs s 0 = []"
| "gen_trees rs s (Suc n) =
     (case Generate rs 10 30 s of (art, s') \<Rightarrow> art # gen_trees rs s' n)"

fun gen_state :: "'s rand_source \<Rightarrow> 's \<Rightarrow> nat \<Rightarrow> 's" where
  "gen_state rs s 0 = s"
| "gen_state rs s (Suc n) =
     (case Generate rs 10 30 s of (art, s') \<Rightarrow> gen_state rs s' n)"

text \<open>
  What the attempts \<open>k, ..., 2\<close> of the loop leave behind: the trees \<open>ts\<close> they built (at
  most \<open>n = 3 - k\<close>), all but the last rejected, and the state after the last of them.
\<close>

definition gate_result :: "int \<Rightarrow> int \<Rightarrow> nat \<Rightarrow> event list \<Rightarrow> 's gate_state \<Rightarrow> ColorFunc list \<Rightarrow> bool" where
  "gate_result sz nw n before res ts =
     (ts \<noteq> [] \<and> length ts \<le> n \<and> trees_of (out res) = trees_of before @ ts \<and>
      list_all (\<lambda>art. metric_of art sz nw \<le> 30) (butlast ts) \<and>
      variance res = metric_of (last ts) sz nw \<and>
      img res = Some (rasterize (last ts) sz nw) \<and>
      (accepted res \<longleftrightarrow> 30 < variance res) \<and>
      (accepted res \<or> length ts = n) \<and>
      Warning \<notin> set (out res))"

text \<open>
  A random source without state: \<open>Float64\<close> always draws \<open>f\<close> and \<open>Intn n\<close> always draws
  \<open>k n\<close>.  It serves to run the program on concrete inputs.
\<close>

definition fixed_source :: "float64 \<Rightarrow> (go_int \<Rightarrow> go_int) \<Rightarrow> unit rand_source" where
  "fixed_source f k = \<lparr>Seed = (\<lambda>v. ()), Float64 = (\<lambda>s. (f, s)), Intn = (\<lambda>n s. (k n, s))\<rparr>"

text \<open>The full binary tree of products of depth \<open>n\<close> whose leaves are \<open>VariableY\<close>.\<close>

fun prodY :: "nat \<Rightarrow> ColorFunc" where
  "prodY 0 = VariableY"
| "prodY (Suc n) = Product (prodY n) (prodY n)"


section \<open>Facts about the gate loop\<close>

lemma attempt_out:
  "out (attempt rs nw seed sz st) =
     out st @ [Tree_printed seed (fst (Generate rs 10 30 (rng st)))]"
  by (simp add: attempt_def Let_def split: prod.splits)

lemma attempts_loop_out:
  "\<exists>ys. out (attempts_loop rs nw seed sz k st) = out st @ ys"
proof (induction rs nw seed sz k st rule: attempts_loop.induct)
  case (1 rs nw seed sz k st)
  show ?case
  proof (cases "k < 3 \<and> \<not> variance (attempt rs nw seed sz st) > 30")
    case False
    then show ?thesis by (subst attempts_loop.simps) (auto simp: Let_def attempt_out)
  next
    case True
    with "1.IH"[OF _ refl] obtain ys where
      "out (attempts_loop rs nw seed sz (k + 1)
             ((attempt rs nw seed sz st)\<lparr>out := out (attempt rs nw seed sz st) @ [Retrying]\<rparr>))
       = out (attempt rs nw seed sz st) @ [Retrying] @ ys"
      by auto
    with True show ?thesis
      by (subst attempts_loop.simps) (auto simp: Let_def attempt_out)
  qed
qed

lemma attempts_loop_first:
  "\<exists>ys. out (attempts_loop rs nw seed sz 0 st) =
     out st @ Tree_printed seed (fst (Generate rs 10 30 (rng st))) # ys"
proof (cases "variance (attempt rs nw seed sz st) > 30")
  case True
  then show ?thesis
    by (subst attempts_loop.simps) (simp add: Let_def attempt_out)
next
  case False
  obtain ys where
    "out (attempts_loop rs nw seed sz (0 + 1)
           ((attempt rs nw seed sz st)\<lparr>out := out (attempt rs nw seed sz st) @ [Retrying]\<rparr>))
     = out ((attempt rs nw seed sz st)\<lparr>out := out (attempt rs nw seed sz st) @ [Retrying]\<rparr>) @ ys"
    using attempts_loop_out by blast
  with False show ?thesis
    by (subst attempts_loop.simps) (simp add: Let_def attempt_out)
qed

lemma CreateImage_first_tree:
  "hd (out (CreateImage rs nw seed sz)) =
     Tree_printed seed (fst (Generate rs 10 30 (Seed rs (ucast (hash seed)))))"
proof -
  let ?st0 = "\<lparr>img = None, variance = 0, rng = Seed rs (ucast (hash seed)), out = [],
                  accepted = False\<rparr>"
  obtain ys where "out (attempts_loop rs nw seed sz 0 ?st0) =
     out ?st0 @ Tree_printed seed (fst (Generate rs 10 30 (rng ?st0))) # ys"
    using attempts_loop_first by blast
  then show ?thesis
    by (simp add: CreateImage_def Let_def)
qed

lemma trees_of_append: "trees_of (es @ fs) = trees_of es @ trees_of fs"
  by (induction es rule: trees_of.induct) simp_all

lemma attempt_rng: "rng (attempt rs nw seed sz st) = snd (Generate rs 10 30 (rng st))"
  by (simp add: attempt_def Let_def split: prod.splits)

lemma attempts_loop_draws:
  "\<exists>n. n \<le> 3 - k \<and> (k < 3 \<longrightarrow> 1 \<le> n) \<and>
       trees_of (out (attempts_loop rs nw seed sz k st)) =
         trees_of (out st) @ gen_trees rs (rng st) n \<and>
       rng (attempts_loop rs nw seed sz k st) = gen_state rs (rng st) n"
proof (induction rs nw seed sz k st rule: attempts_loop.induct)
  case (1 rs nw seed sz k st)
  let ?a = "attempt rs nw seed sz st"
  let ?g = "Generate rs 10 30 (rng st)"
  show ?case
  proof (cases "k < 3")
    case False
    then have "attempts_loop rs nw seed sz k st = st"
      by (subst attempts_loop.simps) simp
    then show ?thesis using False by (intro exI [of _ 0]) simp
  next
    case k: True
    show ?thesis
    proof (cases "variance ?a > 30")
      case True
      with k have "attempts_loop rs nw seed sz k st = ?a\<lparr>accepted := True\<rparr>"
        by (subst attempts_loop.simps) (simp add: Let_def)
      then show ?thesis using k
        by (intro exI [of _ 1])
           (simp add: attempt_out attempt_rng trees_of_append split: prod.splits)
    next
      case False
      let ?st' = "?a\<lparr>out := out ?a @ [Retrying]\<rparr>"
      from k False have eq: "attempts_loop rs nw seed sz k st =
          attempts_loop rs nw seed sz (k + 1) ?st'"
        by (subst attempts_loop.simps) (simp add: Let_def)
      from "1.IH" [OF k refl] False obtain n where n: "n \<le> 3 - (k + 1)"
        "trees_of (out (attempts_loop rs nw seed sz (k + 1) ?st')) =
           trees_of (out ?st') @ gen_trees rs (rng ?st') n"
        "rng (attempts_loop rs nw seed sz (k + 1) ?st') = gen_state rs (rng ?st') n"
        by auto
      show ?thesis using n k unfolding eq
        by (intro exI [of _ "Suc n"])
           (simp add: attempt_out attempt_rng trees_of_append split: prod.splits)
    qed
  qed
qed

lemma CreateImage_draws:
  "\<exists>n. 1 \<le> n \<and> n \<le> 3 \<and>
       trees_of (out (CreateImage rs nw seed sz)) = gen_trees rs (Seed rs (ucast (hash seed))) n \<and>
       rng (CreateImage rs nw seed sz) = gen_state rs (Seed rs (ucast (hash seed))) n"
proof -
  let ?st0 = "\<lparr>img = None, variance = 0, rng = Seed rs (ucast (hash seed)), out = [],
                  accepted = False\<rparr>"
  from attempts_loop_draws [where k = 0 and rs = rs and st = ?st0 and nw = nw and seed = seed and sz = sz] obtain n where
    "n \<le> 3" "1 \<le> n"
    "trees_of (out (attempts_loop rs nw seed sz 0 ?st0)) = gen_trees rs (Seed rs (ucast (hash seed))) n"
    "rng (attempts_loop rs nw seed sz 0 ?st0) = gen_state rs (Seed rs (ucast (hash seed))) n"
    by auto
  then show ?thesis
    by (intro exI [of _ n]) (simp add: CreateImage_def Let_def trees_of_append)
qed

section \<open>The seed hash\<close>

lemma hash_loop_foldl: "hash_loop h cs = foldl (\<lambda>h c. (h * 16777619) XOR c) h cs"
  by (induction cs arbitrary: h) simp_all

lemma range_runes_ascii:
  "list_all (\<lambda>b. b < 0x80) bs \<Longrightarrow> range_runes bs = map ucast bs"
  by (induction bs) simp_all

text \<open>
  Claim C1, as amended.  \<open>hash\<close> folds \<open>h \<mapsto> (h * 16777619) xor c\<close>, wrapping at 32 bits
  and starting from 2166136261, over the code points that \<open>range\<close> yields for the seed
  (one per UTF-8 sequence, \<open>U+FFFD\<close> for a byte that starts no well-formed sequence),
  not over its bytes; for a seed of ASCII bytes only the code points are the bytes.  The
  hash seeds the random source once, before the first attempt: the first tree that
  \<open>CreateImage\<close> builds is the tree generated from the state \<open>Seed (int64 (hash seed))\<close>,
  every later attempt draws from the state that the attempt before it left, and the
  source ends in the state left by the last attempt.
\<close>

theorem hash_folds_code_points:
  "hash seed = fnv_fold (range_runes (bytes_of seed)) \<and>
   (list_all (\<lambda>b. b < 0x80) (bytes_of seed) \<longrightarrow>
      hash seed = fnv_fold (map ucast (bytes_of seed))) \<and>
   hd (out (CreateImage rs numWorkers seed sz)) =
     Tree_printed seed (fst (Generate rs 10 30 (Seed rs (ucast (hash seed))))) \<and>
   (let res = CreateImage rs numWorkers seed sz;
        n = length (trees_of (out res));
        s0 = Seed rs (ucast (hash seed))
    in 1 \<le> n \<and> n \<le> 3 \<and> trees_of (out res) = gen_trees rs s0 n \<and>
       rng res = gen_state rs s0 n)"
proof -
  obtain n where n: "1 \<le> n" "n \<le> 3"
    "trees_of (out (CreateImage rs numWorkers seed sz)) =
       gen_trees rs (Seed rs (ucast (hash seed))) n"
    "rng (CreateImage rs numWorkers seed sz) = gen_state rs (Seed rs (ucast (hash seed))) n"
    using CreateImage_draws by blast
  have len: "length (gen_trees rs s k) = k" for s k
    by (induction k arbitrary: s) (simp_all split: prod.splits)
  from n have "length (trees_of (out (CreateImage rs numWorkers seed sz))) = n"
    by (simp add: len)
  with n show ?thesis
    by (simp add: hash_def fnv_fold_def hash_loop_foldl range_runes_ascii
        CreateImage_first_tree Let_def)
qed

theorem hash_folds_code_points_witness:
  "list_all (\<lambda>b. b < 0x80) (bytes_of ''adamenger'') \<and>
   hash ''adamenger'' = fnv_fold (map ucast (bytes_of ''adamenger''))"
proof -
  have ascii: "list_all (\<lambda>b. b < 0x80) (bytes_of ''adamenger'')"
    by (simp add: bytes_of_def)
  with hash_folds_code_points [of "''adamenger''", THEN conjunct2, THEN conjunct1]
  show ?thesis by blast
qed

text \<open>
  The claim as stated (a fold over the bytes) fails at the two-byte seed \<open>0xC3 0xA9\<close>,
  the UTF-8 encoding of U+00E9: the loop runs once, with \<open>c = 0xE9\<close>.
\<close>

theorem hash_bytes_counterexample:
  "hash [CHR 0xC3, CHR 0xA9] = 84696566 \<and>
   fnv_fold (map ucast (bytes_of [CHR 0xC3, CHR 0xA9])) = 3463954941 \<and>
   hash [CHR 0xC3, CHR 0xA9] \<noteq> fnv_fold (map ucast (bytes_of [CHR 0xC3, CHR 0xA9]))"
  by (simp add: hash_def fnv_fold_def bytes_of_def is_cont_def)

section \<open>Evaluation of \<open>Well\<close> and \<open>FractalNoise\<close>\<close>

text \<open>
  Claim C4.  \<open>Well.Eval\<close> applies \<open>v \<mapsto> 1 - 2 / (1 + v\<^sup>2)\<close> to each channel of the
  child's output at \<open>(x, y)\<close>; \<open>FractalNoise.Eval\<close> evaluates its child at
  \<open>(x * scale, y * scale)\<close> and applies \<open>v \<mapsto> 0.5 * (sin (5 v) + cos (5 v))\<close> to each
  channel.
\<close>

theorem Well_FractalNoise_componentwise:
  "Eval (Well child) x y = map3 (\<lambda>v. 1 - 2 / (1 + v\<^sup>2)) (Eval child x y) \<and>
   Eval (FractalNoise scale child) x y =
     map3 (\<lambda>v. 0.5 * (sin (5 * v) + cos (5 * v))) (Eval child (x * scale) (y * scale))"
  by (simp add: map3_def well_def smooth_def split: prod.splits)

section \<open>Depth of the generated tree\<close>

lemma max_depth_Generate_leaf: "max_depth (fst (Generate_leaf rs s)) = 0"
  by (simp add: Generate_leaf_def split: prod.splits)

lemma min_depth_Generate_leaf: "min_depth (fst (Generate_leaf rs s)) = 0"
  by (simp add: Generate_leaf_def split: prod.splits)

lemma is_leaf_Generate_leaf: "is_leaf (fst (Generate_leaf rs s))"
  by (simp add: Generate_leaf_def split: prod.splits)

lemma leaf_guard_zero: "leaf_guard rs mn 0 s = (True, s)"
  by (simp add: leaf_guard_def)

lemma Generate_stop:
  "leaf_guard rs mn mx s = (True, s0) \<Longrightarrow> Generate rs mn mx s = Generate_leaf rs s0"
  by (subst Generate.simps) simp

text \<open>The shape of an interior node and the calls that build its children.\<close>

lemma Generate_interior:
  assumes "leaf_guard rs mn mx s = (False, s0)"
  shows "(\<exists>p f s1. fst (Generate rs mn mx s) = Sin p f (fst (Generate rs (mn - 1) (mx - 1) s1)))
       \<or> (\<exists>w s1 s2. fst (Generate rs mn mx s) =
             Mix w (fst (Generate rs (mn - 1) (mx - 1) s1)) (fst (Generate rs (mn - 1) (mx - 1) s2)))
       \<or> (\<exists>s1 s2. fst (Generate rs mn mx s) =
             Product (fst (Generate rs (mn - 1) (mx - 1) s1)) (fst (Generate rs (mn - 1) (mx - 1) s2)))
       \<or> (\<exists>sc s1. fst (Generate rs mn mx s) =
             FractalNoise sc (fst (Generate rs (mn - 1) (mx - 1) s1)))"
proof -
  obtain k s1 where k: "Intn rs 4 s0 = (k, s1)" by (cases "Intn rs 4 s0")
  consider "k = 0" | "k = 1" | "k = 2" | "k \<noteq> 0" "k \<noteq> 1" "k \<noteq> 2" by blast
  then show ?thesis
  proof cases
    case 1
    with assms k have "\<exists>p f s1. fst (Generate rs mn mx s) =
             Sin p f (fst (Generate rs (mn - 1) (mx - 1) s1))"
      apply (subst Generate.simps) apply (simp split: prod.splits) by (metis fst_conv)
    then show ?thesis by blast
  next
    case 2
    with assms k have "\<exists>w s1 s2. fst (Generate rs mn mx s) =
             Mix w (fst (Generate rs (mn - 1) (mx - 1) s1)) (fst (Generate rs (mn - 1) (mx - 1) s2))"
      apply (subst Generate.simps) apply (simp split: prod.splits) by (metis fst_conv)
    then show ?thesis by blast
  next
    case 3
    with assms k have "\<exists>s1 s2. fst (Generate rs mn mx s) =
             Product (fst (Generate rs (mn - 1) (mx - 1) s1)) (fst (Generate rs (mn - 1) (mx - 1) s2))"
      apply (subst Generate.simps) apply (simp split: prod.splits) by (metis fst_conv)
    then show ?thesis by blast
  next
    case 4
    with assms k have "\<exists>sc s1. fst (Generate rs mn mx s) =
             FractalNoise sc (fst (Generate rs (mn - 1) (mx - 1) s1))"
      apply (subst Generate.simps) apply (simp split: prod.splits) by (metis fst_conv)
    then show ?thesis by blast
  qed
qed


lemma unat_pred: "mx \<noteq> 0 \<Longrightarrow> Suc (unat (mx - 1)) = unat (mx :: go_int)"
  by (simp add: unat_minus_one unat_gt_0)

lemma Generate_depth_unat:
  "max_depth (fst (Generate rs mn mx s)) \<le> unat mx"
proof (induction "unat mx" arbitrary: mn mx s)
  case 0
  then have "mx = 0" by (simp add: unat_eq_0)
  then show ?case
    by (simp add: Generate_stop leaf_guard_zero max_depth_Generate_leaf)
next
  case (Suc n)
  obtain stop s0 where lg: "leaf_guard rs mn mx s = (stop, s0)"
    by (cases "leaf_guard rs mn mx s")
  show ?case
  proof (cases stop)
    case True
    with lg show ?thesis
      by (simp add: Generate_stop max_depth_Generate_leaf)
  next
    case False
    with lg have "mx \<noteq> 0" by (auto dest: leaf_guard_continue)
    with Suc.hyps(2) have dec: "unat (mx - 1) = n"
      using unat_pred [of mx] by simp
    have IH: "max_depth (fst (Generate rs (mn - 1) (mx - 1) s')) \<le> n" for s'
      using Suc.hyps(1)[of "mx - 1" "mn - 1" s'] dec by simp
    from lg False have lgF: "leaf_guard rs mn mx s = (False, s0)" by simp
    have "max_depth (fst (Generate rs mn mx s)) \<le> Suc n"
      using Generate_interior [OF lgF] IH by (auto simp: IH)
    with Suc.hyps(2) show ?thesis by simp
  qed
qed


lemma sint_nonneg_unat: 
  assumes "0 \<le>s (w :: go_int)" shows "sint w = int (unat w)"
proof -
  from assms have nonneg: "0 \<le> sint w" by (simp add: word_sle_eq)
  have "sint w < 9223372036854775808" using sint_lt [of w] by simp
  then have lt: "sint w < 18446744073709551616" by linarith
  have "uint w = uint (word_of_int (sint w) :: go_int)" by simp
  also have "\<dots> = sint w mod 18446744073709551616" by (simp only: uint_word_of_int) simp
  also have "\<dots> = sint w" using nonneg lt by simp
  finally have "uint w = sint w" .
  with uint_nat [of w] show ?thesis by linarith
qed

lemma sint_pred: "0 < sint (w :: go_int) \<Longrightarrow> sint (w - 1) = sint w - 1"
  using sint_lt [of w]
  by (simp add: sint_word_diff signed_take_bit_int_eq_self)

lemma Generate_min_depth:
  "0 \<le> sint mx \<Longrightarrow> min (sint mn) (sint mx) \<le> int (min_depth (fst (Generate rs mn mx s)))"
proof (induction "unat mx" arbitrary: mn mx s)
  case 0
  then have "mx = 0" by (simp add: unat_eq_0)
  then show ?case by simp
next
  case (Suc n)
  obtain stop s0 where lg: "leaf_guard rs mn mx s = (stop, s0)"
    by (cases "leaf_guard rs mn mx s")
  show ?case
  proof (cases "sint mn \<le> 0")
    case True
    then show ?thesis by simp
  next
    case mn_pos: False
    then have "\<not> mn \<le>s 0" by (simp add: word_sle_eq)
    from Suc.hyps(2) have "mx \<noteq> 0" by auto
    with lg \<open>\<not> mn \<le>s 0\<close> have lgF: "leaf_guard rs mn mx s = (False, s0)"
      by (auto simp: leaf_guard_def)
    from \<open>mx \<noteq> 0\<close> Suc.hyps(2) have dec: "unat (mx - 1) = n"
      using unat_pred [of mx] by simp
    from \<open>mx \<noteq> 0\<close> Suc.prems have mx_pos: "0 < sint mx"
      by (metis order_le_less signed_0 signed_word_eqI)
    define m where "m = min (sint mn) (sint mx)"
    have IH: "m \<le> int (Suc (min_depth (fst (Generate rs (mn - 1) (mx - 1) s'))))" for s'
      using Suc.hyps(1)[of "mx - 1" "mn - 1" s'] dec mx_pos mn_pos
      by (simp add: sint_pred m_def)
    have "m \<le> int (min_depth (fst (Generate rs mn mx s)))"
      using Generate_interior [OF lgF] IH by (auto simp: min_def simp del: of_nat_Suc)
    then show ?thesis by (simp add: m_def)
  qed
qed

lemma Generate_is_leaf:
  "is_leaf (fst (Generate rs mn mx s)) \<longleftrightarrow> fst (leaf_guard rs mn mx s)"
proof (cases "leaf_guard rs mn mx s")
  case (Pair stop s0)
  show ?thesis
  proof (cases stop)
    case True
    with Pair show ?thesis by (simp add: Generate_stop is_leaf_Generate_leaf)
  next
    case False
    with Pair have "leaf_guard rs mn mx s = (False, s0)" by simp
    from Generate_interior [OF this] Pair False show ?thesis by auto
  qed
qed

text \<open>The tree that the fixed source \<open>Float64 = 0\<close>, \<open>Intn n = n - 2\<close> builds for the budgets 1 and 2.\<close>

lemma Generate_fixed_1_2:
  "Generate (fixed_source 0 (\<lambda>n. n - 2)) 1 2 () = (Product VariableY VariableY, ())"
  by (simp add: Generate.simps leaf_guard_def Generate_leaf_def fixed_source_def word_sle_eq)

text \<open>
  Claim C5.  \<open>Generate\<close> is a total function: its termination is proved above with the
  measure \<open>unat maxDepth\<close>, which decreases at every recursive call.  For a budget
  \<open>maxDepth \<ge> 0\<close> every path from the root to a leaf has at most \<open>maxDepth\<close> edges, and
  each recursive call receives the budget \<open>maxDepth - 1\<close>, which is smaller by one and
  still not negative.
\<close>

theorem Generate_depth_at_most_maxDepth:
  assumes "0 \<le>s maxDepth"
  shows "int (max_depth (fst (Generate rs minDepth maxDepth s))) \<le> sint maxDepth \<and>
         (\<not> fst (leaf_guard rs minDepth maxDepth s) \<longrightarrow>
            sint (maxDepth - 1) = sint maxDepth - 1 \<and> 0 \<le>s maxDepth - 1)"
proof
  from assms have "sint maxDepth = int (unat maxDepth)"
    by (rule sint_nonneg_unat)
  moreover have "int (max_depth (fst (Generate rs minDepth maxDepth s))) \<le> int (unat maxDepth)"
    using Generate_depth_unat [of rs minDepth maxDepth s] by (simp only: of_nat_le_iff)
  ultimately show "int (max_depth (fst (Generate rs minDepth maxDepth s))) \<le> sint maxDepth"
    by linarith
next
  show "\<not> fst (leaf_guard rs minDepth maxDepth s) \<longrightarrow>
          sint (maxDepth - 1) = sint maxDepth - 1 \<and> 0 \<le>s maxDepth - 1"
  proof
    assume "\<not> fst (leaf_guard rs minDepth maxDepth s)"
    then have "maxDepth \<noteq> 0" by (auto simp: leaf_guard_def)
    with assms have "0 < sint maxDepth"
      by (metis order_le_less signed_0 signed_word_eqI word_sle_eq)
    then show "sint (maxDepth - 1) = sint maxDepth - 1 \<and> 0 \<le>s maxDepth - 1"
      by (simp add: sint_pred word_sle_eq)
  qed
qed

theorem Generate_depth_at_most_maxDepth_witness:
  "0 \<le>s (2 :: go_int) \<and>
   fst (Generate (fixed_source 0 (\<lambda>n. n - 2)) 1 2 ()) = Product VariableY VariableY \<and>
   int (max_depth (fst (Generate (fixed_source 0 (\<lambda>n. n - 2)) 1 2 ()))) \<le> sint (2 :: go_int)"
proof -
  have h: "0 \<le>s (2 :: go_int)" by (simp add: word_sle_eq)
  from Generate_depth_at_most_maxDepth [OF h, of "fixed_source 0 (\<lambda>n. n - 2)" 1 "()"] h
  show ?thesis by (simp add: Generate_fixed_1_2)
qed

text \<open>
  Claim C6.  For a budget \<open>maxDepth \<ge> 0\<close> every path from the root to a leaf has at least
  \<open>min minDepth maxDepth\<close> edges, and the call returns a leaf exactly when \<open>maxDepth = 0\<close>,
  or \<open>minDepth \<le> 0\<close> and the draw of \<open>rand.Float64()\<close> is below 0.2.
\<close>

theorem Generate_depth_at_least_min:
  assumes "0 \<le>s maxDepth"
  shows "min (sint minDepth) (sint maxDepth)
           \<le> int (min_depth (fst (Generate rs minDepth maxDepth s))) \<and>
         (is_leaf (fst (Generate rs minDepth maxDepth s)) \<longleftrightarrow>
            maxDepth = 0 \<or> (minDepth \<le>s 0 \<and> fst (Float64 rs s) < 0.2))"
proof
  from assms have "0 \<le> sint maxDepth" by (simp add: word_sle_eq)
  then show "min (sint minDepth) (sint maxDepth)
               \<le> int (min_depth (fst (Generate rs minDepth maxDepth s)))"
    by (rule Generate_min_depth)
next
  show "is_leaf (fst (Generate rs minDepth maxDepth s)) \<longleftrightarrow>
          maxDepth = 0 \<or> (minDepth \<le>s 0 \<and> fst (Float64 rs s) < 0.2)"
    by (simp add: Generate_is_leaf leaf_guard_def split: prod.splits)
qed

theorem Generate_depth_at_least_min_witness:
  "0 \<le>s (2 :: go_int) \<and>
   min (sint (1 :: go_int)) (sint (2 :: go_int))
     \<le> int (min_depth (fst (Generate (fixed_source 0 (\<lambda>n. n - 2)) 1 2 ()))) \<and>
   min_depth (fst (Generate (fixed_source 0 (\<lambda>n. n - 2)) 1 2 ())) = 1"
proof -
  have h: "0 \<le>s (2 :: go_int)" by (simp add: word_sle_eq)
  from Generate_depth_at_least_min [OF h, of 1 "fixed_source 0 (\<lambda>n. n - 2)" "()"] h
  show ?thesis by (simp add: Generate_fixed_1_2)
qed

section \<open>What rasterisation stores\<close>

lemma bounds_Set [simp]: "bounds (Set im px py c) = bounds im"
  by (simp add: Set_def)

lemma in_bounds_Set [simp]: "in_bounds (Set im px py c) = in_bounds im"
  by (simp add: in_bounds_def fun_eq_iff)

lemma px_loop_effect:
  "bounds (px_loop art sz py px im) = bounds im \<and>
   pix (px_loop art sz py px im) q =
     (if row_hit im sz py px q then pixel_color art sz (fst q) (snd q) else pix im q) \<and>
   writes (px_loop art sz py px im) q =
     (if row_hit im sz py px q then Suc (writes im q) else writes im q)"
proof (induction art sz py px im rule: px_loop.induct)
  case (1 art sz py px im)
  show ?case
  proof (cases "px < sz")
    case False
    then show ?thesis
      by (subst (1 2 3) px_loop.simps) (auto simp: row_hit_def)
  next
    case True
    have step: "px_loop art sz py px im =
        px_loop art sz py (px + 1) (Set im px py (pixel_color art sz px py))"
      using True by (subst px_loop.simps) simp
    have hit: "row_hit im sz py px q \<longleftrightarrow>
        (q = (px, py) \<and> in_bounds im px py) \<or> row_hit (Set im px py (pixel_color art sz px py)) sz py (px + 1) q"
      using True by (cases q) (auto simp: row_hit_def not_le zless_add1_eq)
    have nothit: "\<not> row_hit (Set im px py (pixel_color art sz px py)) sz py (px + 1) (px, py)"
      by (simp add: row_hit_def)
    show ?thesis
      unfolding step using "1.IH"[OF True] hit nothit
      by (auto simp: Set_def)
  qed
qed

lemma in_bounds_px_loop [simp]: "in_bounds (px_loop art sz py px im) = in_bounds im"
  using px_loop_effect [of art sz py px im] by (simp add: in_bounds_def fun_eq_iff)

lemma py_loop_effect:
  "bounds (py_loop art sz e py im) = bounds im \<and>
   pix (py_loop art sz e py im) q =
     (if band_hit im sz e py q then pixel_color art sz (fst q) (snd q) else pix im q) \<and>
   writes (py_loop art sz e py im) q =
     (if band_hit im sz e py q then Suc (writes im q) else writes im q)"
proof (induction art sz e py im rule: py_loop.induct)
  case (1 art sz e py im)
  show ?case
  proof (cases "py < e")
    case False
    then show ?thesis
      by (subst (1 2 3) py_loop.simps) (auto simp: band_hit_def)
  next
    case True
    have step: "py_loop art sz e py im = py_loop art sz e (py + 1) (px_loop art sz py 0 im)"
      using True by (subst py_loop.simps) simp
    have hit: "band_hit im sz e py q \<longleftrightarrow>
        row_hit im sz py 0 q \<or> band_hit (px_loop art sz py 0 im) sz e (py + 1) q"
      using True by (cases q) (auto simp: row_hit_def band_hit_def not_le zless_add1_eq)
    have excl: "\<not> (row_hit im sz py 0 q \<and> band_hit (px_loop art sz py 0 im) sz e (py + 1) q)"
      by (auto simp: row_hit_def band_hit_def)
    show ?thesis
      unfolding step using "1.IH"[OF True] hit excl px_loop_effect [of art sz py 0 im q]
      by auto
  qed
qed

lemma worker_body_effect:
  "bounds (worker_body art sz nw w im) = bounds im \<and>
   pix (worker_body art sz nw w im) q =
     (if in_band sz nw w (snd q) \<and> painted im sz q then pixel_color art sz (fst q) (snd q)
      else pix im q) \<and>
   writes (worker_body art sz nw w im) q =
     (if in_band sz nw w (snd q) \<and> painted im sz q then Suc (writes im q) else writes im q)"
  using py_loop_effect [of art sz "endRow sz nw w" "startRow sz nw w" im q]
  by (auto simp: worker_body_def band_hit_def in_band_def painted_def)

lemma painted_worker_body [simp]: "painted (worker_body art sz nw w im) sz q = painted im sz q"
  using worker_body_effect [of art sz nw w im q] by (simp add: painted_def in_bounds_def)

lemma run_schedule_effect:
  "bounds (run_schedule art sz nw sched im) = bounds im \<and>
   pix (run_schedule art sz nw sched im) q =
     (if (\<exists>w\<in>set sched. in_band sz nw w (snd q)) \<and> painted im sz q
      then pixel_color art sz (fst q) (snd q) else pix im q) \<and>
   writes (run_schedule art sz nw sched im) q =
     (if painted im sz q then writes im q + length (filter (\<lambda>w. in_band sz nw w (snd q)) sched)
      else writes im q)"
proof (induction sched arbitrary: im)
  case Nil
  show ?case by (simp add: run_schedule_def)
next
  case (Cons w ws)
  have step: "run_schedule art sz nw (w # ws) im =
              run_schedule art sz nw ws (worker_body art sz nw w im)"
    by (simp add: run_schedule_def)
  show ?case
    unfolding step
    using Cons.IH [of "worker_body art sz nw w im"] worker_body_effect [of art sz nw w im q]
    by auto
qed

lemma go_quot_nonneg: "0 \<le> a \<Longrightarrow> 0 < b \<Longrightarrow> go_quot a b = a div b"
  by (simp add: go_quot_def)

lemma band_below_disjoint:
  fixes q :: int
  assumes "0 \<le> q" "w * q \<le> py" "py < w * q + q" "w' * q \<le> py" "py < w' * q + q"
  shows "w = w'"
proof (rule ccontr)
  assume "w \<noteq> w'"
  then consider "w + 1 \<le> w'" | "w' + 1 \<le> w" by linarith
  then show False
  proof cases
    case 1
    then have "(w + 1) * q \<le> w' * q" using assms(1) by (rule mult_right_mono)
    moreover have "(w + 1) * q = w * q + q" by (simp add: distrib_right)
    ultimately show False using assms by linarith
  next
    case 2
    then have "(w' + 1) * q \<le> w * q" using assms(1) by (rule mult_right_mono)
    moreover have "(w' + 1) * q = w' * q + q" by (simp add: distrib_right)
    ultimately show False using assms by linarith
  qed
qed

lemma band_unique:
  assumes nw: "1 \<le> nw" and py: "0 \<le> py" "py < sz"
  shows "\<exists>!w. 0 \<le> w \<and> w < nw \<and> in_band sz nw w py"
proof -
  define q where "q = sz div nw"
  from nw py have gq: "go_quot sz nw = q"
    by (simp add: go_quot_nonneg q_def)
  from nw py have q0: "0 \<le> q"
    by (simp add: q_def pos_imp_zdiv_nonneg_iff)
  have "nw * q \<le> sz"
  proof -
    have "nw * (sz div nw) + sz mod nw = sz" by (rule mult_div_mod_eq)
    moreover have "0 \<le> sz mod nw" using nw by (intro pos_mod_sign) linarith
    ultimately show ?thesis unfolding q_def by linarith
  qed
  moreover have "(nw - 1) * q = nw * q - q" by (simp add: left_diff_distrib)
  ultimately have last_start: "(nw - 1) * q \<le> sz"
    using q0 by linarith
  have band: "in_band sz nw w py \<longleftrightarrow>
      (if w = nw - 1 then (nw - 1) * q \<le> py else w * q \<le> py \<and> py < w * q + q)" for w
    using py by (simp add: in_band_def startRow_def endRow_def gq)
  show ?thesis
  proof (cases "(nw - 1) * q \<le> py")
    case True
    have "0 \<le> nw - 1 \<and> nw - 1 < nw \<and> in_band sz nw (nw - 1) py"
      using True nw by (simp add: band)
    moreover have "w = nw - 1" if "0 \<le> w \<and> w < nw \<and> in_band sz nw w py" for w
    proof (rule ccontr)
      assume ne: "w \<noteq> nw - 1"
      with that have "w + 1 \<le> nw - 1" by linarith
      then have "(w + 1) * q \<le> (nw - 1) * q" using q0 by (rule mult_right_mono)
      moreover have "(w + 1) * q = w * q + q" by (simp add: distrib_right)
      moreover from that ne have "py < w * q + q" by (simp add: band)
      ultimately show False using True by linarith
    qed
    ultimately show ?thesis by (rule ex1I)
  next
    case False
    then have below: "py < (nw - 1) * q" by simp
    have qpos: "0 < q"
    proof (rule ccontr)
      assume "\<not> 0 < q"
      with q0 have "q = 0" by simp
      with below py show False by simp
    qed
    define w0 where "w0 = py div q"
    have split: "w0 * q + py mod q = py"
      unfolding w0_def by (rule div_mult_mod_eq)
    have w0_lo: "w0 * q \<le> py"
      using split pos_mod_sign [OF qpos, of py] by linarith
    have w0_hi: "py < w0 * q + q"
      using split pos_mod_bound [OF qpos, of py] by linarith
    have w0_nonneg: "0 \<le> w0"
      using qpos py by (simp add: w0_def pos_imp_zdiv_nonneg_iff)
    have w0_lt: "w0 < nw - 1"
    proof (rule ccontr)
      assume "\<not> w0 < nw - 1"
      then have "nw - 1 \<le> w0" by simp
      then have "(nw - 1) * q \<le> w0 * q" using q0 by (rule mult_right_mono)
      with w0_lo below show False by simp
    qed
    have "0 \<le> w0 \<and> w0 < nw \<and> in_band sz nw w0 py"
      using w0_lo w0_hi w0_lt w0_nonneg by (simp add: band)
    moreover have "w = w0" if "0 \<le> w \<and> w < nw \<and> in_band sz nw w py" for w
    proof -
      from that below have "w \<noteq> nw - 1" by (auto simp: band)
      with that have "w * q \<le> py" "py < w * q + q" by (simp_all add: band)
      then show ?thesis using w0_lo w0_hi by (rule band_below_disjoint [OF q0])
    qed
    ultimately show ?thesis by (rule ex1I)
  qed
qed

lemma NewRGBA_fields:
  "bounds (NewRGBA sz) = sz"
  "pix (NewRGBA sz) q = \<lparr>R = 0, G = 0, B = 0, A = 0\<rparr>"
  "writes (NewRGBA sz) q = 0"
  by (simp_all add: NewRGBA_def)

lemma painted_NewRGBA: "painted (NewRGBA sz) sz q \<longleftrightarrow> in_square sz q"
  by (auto simp: painted_def in_square_def in_bounds_def NewRGBA_fields)

lemma is_schedule_upto: "is_schedule nw [0..nw - 1]"
proof -
  have "{0..nw - 1} = {0..<nw}" by auto
  then show ?thesis by (simp add: is_schedule_def)
qed

lemma schedule_hits_once:
  assumes "is_schedule nw sched" "1 \<le> nw" "0 \<le> py" "py < sz"
  shows "length (filter (\<lambda>w. in_band sz nw w py) sched) = 1"
    and "\<exists>w\<in>set sched. in_band sz nw w py"
proof -
  from band_unique [OF assms(2-4)] obtain w0 where
    w0: "0 \<le> w0" "w0 < nw" "in_band sz nw w0 py"
    and uniq: "\<And>w. 0 \<le> w \<and> w < nw \<and> in_band sz nw w py \<Longrightarrow> w = w0"
    by blast
  from assms(1) have d: "distinct sched" and st: "set sched = {0..<nw}"
    by (simp_all add: is_schedule_def)
  have "{w. in_band sz nw w py} \<inter> set sched = {w0}"
  proof (intro equalityI subsetI)
    fix w
    assume "w \<in> {w. in_band sz nw w py} \<inter> set sched"
    with st have "0 \<le> w \<and> w < nw \<and> in_band sz nw w py" by simp
    then have "w = w0" by (rule uniq)
    then show "w \<in> {w0}" by simp
  next
    fix w
    assume "w \<in> {w0}"
    with w0 st show "w \<in> {w. in_band sz nw w py} \<inter> set sched" by simp
  qed
  with d show "length (filter (\<lambda>w. in_band sz nw w py) sched) = 1"
    by (simp add: distinct_length_filter)
  from w0 st have "w0 \<in> set sched" by simp
  with w0(3) show "\<exists>w\<in>set sched. in_band sz nw w py" by blast
qed

lemma run_schedule_full:
  assumes "is_schedule nw sched" "1 \<le> nw"
  shows "run_schedule art sz nw sched (NewRGBA sz) = full_image art sz"
proof (rule RGBA_image.equality)
  show "bounds (run_schedule art sz nw sched (NewRGBA sz)) = bounds (full_image art sz)"
    using run_schedule_effect [of art sz nw sched "NewRGBA sz"]
    by (simp add: NewRGBA_fields full_image_def)
next
  note p = painted_NewRGBA
  show "pix (run_schedule art sz nw sched (NewRGBA sz)) = pix (full_image art sz)"
  proof
    fix q
    show "pix (run_schedule art sz nw sched (NewRGBA sz)) q = pix (full_image art sz) q"
    proof (cases "in_square sz q")
      case True
      then have "\<exists>w\<in>set sched. in_band sz nw w (snd q)"
        using schedule_hits_once(2) [OF assms, of "snd q" sz] by (simp add: in_square_def)
      with True show ?thesis
        using run_schedule_effect [of art sz nw sched "NewRGBA sz" q]
        by (simp add: p full_image_def NewRGBA_fields)
    next
      case False
      then show ?thesis
        using run_schedule_effect [of art sz nw sched "NewRGBA sz" q]
        by (simp add: p full_image_def NewRGBA_fields)
    qed
  qed
  show "writes (run_schedule art sz nw sched (NewRGBA sz)) = writes (full_image art sz)"
  proof
    fix q
    show "writes (run_schedule art sz nw sched (NewRGBA sz)) q = writes (full_image art sz) q"
    proof (cases "in_square sz q")
      case True
      then have "length (filter (\<lambda>w. in_band sz nw w (snd q)) sched) = 1"
        using schedule_hits_once(1) [OF assms, of "snd q" sz] by (simp add: in_square_def)
      with True show ?thesis
        using run_schedule_effect [of art sz nw sched "NewRGBA sz" q]
        by (simp add: p full_image_def NewRGBA_fields)
    next
      case False
      then show ?thesis
        using run_schedule_effect [of art sz nw sched "NewRGBA sz" q]
        by (simp add: p full_image_def NewRGBA_fields)
    qed
  qed
qed simp

lemma rasterize_full: "1 \<le> nw \<Longrightarrow> rasterize art sz nw = full_image art sz"
  unfolding rasterize_def by (rule run_schedule_full [OF is_schedule_upto])

section \<open>Channel bytes\<close>






lemma RGBAAt_rasterize:
  assumes "1 \<le> nw" "0 \<le> px" "px < sz" "0 \<le> py" "py < sz"
  shows "RGBAAt (rasterize art sz nw) px py = pixel_color art sz px py"
    and "writes (rasterize art sz nw) (px, py) = 1"
  using assms
  by (simp_all add: rasterize_full RGBAAt_def in_bounds_def full_image_def in_square_def)

section \<open>The image that \<open>CreateImage\<close> returns\<close>




section \<open>Pixel mapping\<close>



section \<open>Rasterisation does not depend on the workers\<close>

text \<open>
  Claim C9.  For a size of at least 1 and at least one worker, running the workers in any
  order in which each runs once gives the image of a single worker, and so does the
  program's own order; every row lies in the band of exactly one worker; every pixel of
  the square is stored exactly once, with the colour computed from \<open>Eval\<close> at its
  coordinates.
\<close>

theorem rasterize_independent_of_workers:
  assumes "1 \<le> sz" "1 \<le> numWorkers" "is_schedule numWorkers sched"
  shows "run_schedule art sz numWorkers sched (NewRGBA sz) = rasterize art sz 1 \<and>
         rasterize art sz numWorkers = rasterize art sz 1 \<and>
         (\<forall>py. 0 \<le> py \<and> py < sz \<longrightarrow>
            (\<exists>!worker. 0 \<le> worker \<and> worker < numWorkers \<and> in_band sz numWorkers worker py)) \<and>
         (\<forall>px py. 0 \<le> px \<and> px < sz \<and> 0 \<le> py \<and> py < sz \<longrightarrow>
            writes (rasterize art sz numWorkers) (px, py) = 1 \<and>
            RGBAAt (rasterize art sz numWorkers) px py = pixel_color art sz px py)"
proof (intro conjI allI impI)
  show "run_schedule art sz numWorkers sched (NewRGBA sz) = rasterize art sz 1"
    using assms by (simp add: run_schedule_full rasterize_full)
  show "rasterize art sz numWorkers = rasterize art sz 1"
    using assms by (simp add: rasterize_full)
next
  fix py
  assume "0 \<le> py \<and> py < sz"
  with assms(2) show "\<exists>!worker. 0 \<le> worker \<and> worker < numWorkers \<and> in_band sz numWorkers worker py"
    by (intro band_unique) simp_all
next
  fix px py
  assume "0 \<le> px \<and> px < sz \<and> 0 \<le> py \<and> py < sz"
  with assms(2) show "writes (rasterize art sz numWorkers) (px, py) = 1"
    and "RGBAAt (rasterize art sz numWorkers) px py = pixel_color art sz px py"
    by (simp_all add: RGBAAt_rasterize)
qed

theorem rasterize_independent_of_workers_witness:
  "is_schedule 3 [2, 0, 1] \<and>
   run_schedule VariableX 2 3 [2, 0, 1] (NewRGBA 2) = rasterize VariableX 2 1 \<and>
   rasterize VariableX 2 3 = rasterize VariableX 2 1 \<and>
   writes (rasterize VariableX 2 3) (1, 0) = 1"
proof -
  have "{0..<3::int} = {2, 0, 1}" by auto
  then have s: "is_schedule 3 [2, 0, 1]" by (simp add: is_schedule_def)
  have t: "run_schedule VariableX 2 3 [2, 0, 1] (NewRGBA 2) = rasterize VariableX 2 1 \<and>
     rasterize VariableX 2 3 = rasterize VariableX 2 1 \<and>
     (\<forall>py. 0 \<le> py \<and> py < 2 \<longrightarrow>
        (\<exists>!worker. 0 \<le> worker \<and> worker < 3 \<and> in_band 2 3 worker py)) \<and>
     (\<forall>px py. 0 \<le> px \<and> px < 2 \<and> 0 \<le> py \<and> py < 2 \<longrightarrow>
        writes (rasterize VariableX 2 3) (px, py) = 1 \<and>
        RGBAAt (rasterize VariableX 2 3) px py = pixel_color VariableX 2 px py)"
    by (rule rasterize_independent_of_workers [OF _ _ s]) simp_all
  from t [THEN conjunct2, THEN conjunct2, THEN conjunct2, THEN spec, of 1, THEN spec, of 0]
  have "writes (rasterize VariableX 2 3) (1, 0) = 1" by simp
  with t s show ?thesis by simp
qed

section \<open>Range of the stored bytes\<close>



section \<open>The metric as a formula\<close>

lemma sum_int_head:
  fixes f :: "int \<Rightarrow> real"
  assumes "a < b"
  shows "(\<Sum>x\<in>{a..<b}. f x) = f a + (\<Sum>x\<in>{a + 1..<b}. f x)"
proof -
  from assms have "{a..<b} = insert a {a + 1..<b}" by auto
  then show ?thesis by simp
qed

lemma var_px_loop_sums:
  "rTotal (var_px_loop im sz py px t) = rTotal t + (\<Sum>x\<in>{px..<sz}. chanR (RGBAAt im x py)) \<and>
   gTotal (var_px_loop im sz py px t) = gTotal t + (\<Sum>x\<in>{px..<sz}. chanG (RGBAAt im x py)) \<and>
   bTotal (var_px_loop im sz py px t) = bTotal t + (\<Sum>x\<in>{px..<sz}. chanB (RGBAAt im x py)) \<and>
   rSq (var_px_loop im sz py px t) = rSq t + (\<Sum>x\<in>{px..<sz}. (chanR (RGBAAt im x py))\<^sup>2) \<and>
   gSq (var_px_loop im sz py px t) = gSq t + (\<Sum>x\<in>{px..<sz}. (chanG (RGBAAt im x py))\<^sup>2) \<and>
   bSq (var_px_loop im sz py px t) = bSq t + (\<Sum>x\<in>{px..<sz}. (chanB (RGBAAt im x py))\<^sup>2)"
proof (induction im sz py px t rule: var_px_loop.induct)
  case (1 im sz py px t)
  show ?case
  proof (cases "px < sz")
    case False
    then show ?thesis by (subst (1 2 3 4 5 6) var_px_loop.simps) simp
  next
    case True
    have step: "var_px_loop im sz py px t =
                var_px_loop im sz py (px + 1) (add_pixel (RGBAAt im px py) t)"
      using True by (subst var_px_loop.simps) simp
    show ?thesis
      unfolding step using "1.IH" [OF True]
      by (simp add: sum_int_head [OF True] add_pixel_def Let_def chanR_def chanG_def chanB_def
            power2_eq_square)
  qed
qed

lemma var_py_loop_sums:
  "rTotal (var_py_loop im sz py t) =
     rTotal t + (\<Sum>y\<in>{py..<sz}. \<Sum>x\<in>{0..<sz}. chanR (RGBAAt im x y)) \<and>
   gTotal (var_py_loop im sz py t) =
     gTotal t + (\<Sum>y\<in>{py..<sz}. \<Sum>x\<in>{0..<sz}. chanG (RGBAAt im x y)) \<and>
   bTotal (var_py_loop im sz py t) =
     bTotal t + (\<Sum>y\<in>{py..<sz}. \<Sum>x\<in>{0..<sz}. chanB (RGBAAt im x y)) \<and>
   rSq (var_py_loop im sz py t) =
     rSq t + (\<Sum>y\<in>{py..<sz}. \<Sum>x\<in>{0..<sz}. (chanR (RGBAAt im x y))\<^sup>2) \<and>
   gSq (var_py_loop im sz py t) =
     gSq t + (\<Sum>y\<in>{py..<sz}. \<Sum>x\<in>{0..<sz}. (chanG (RGBAAt im x y))\<^sup>2) \<and>
   bSq (var_py_loop im sz py t) =
     bSq t + (\<Sum>y\<in>{py..<sz}. \<Sum>x\<in>{0..<sz}. (chanB (RGBAAt im x y))\<^sup>2)"
proof (induction im sz py t rule: var_py_loop.induct)
  case (1 im sz py t)
  show ?case
  proof (cases "py < sz")
    case False
    then show ?thesis by (subst (1 2 3 4 5 6) var_py_loop.simps) simp
  next
    case True
    have step: "var_py_loop im sz py t = var_py_loop im sz (py + 1) (var_px_loop im sz py 0 t)"
      using True by (subst var_py_loop.simps) simp
    show ?thesis
      unfolding step using "1.IH" [OF True] var_px_loop_sums [of im sz py 0 t]
      by (simp add: sum_int_head [OF True])
  qed
qed

lemma go_mul_square:
  assumes "1 \<le> sz" "sz * sz < 2 ^ 63"
  shows "go_mul sz sz = sz * sz"
proof -
  have "word_of_int sz * word_of_int sz = (word_of_int (sz * sz) :: go_int)" by simp
  moreover have "sint (word_of_int (sz * sz) :: go_int) = signed_take_bit 63 (sz * sz)"
    by (subst sint_sbintrunc') simp
  moreover have "signed_take_bit 63 (sz * sz) = sz * sz"
  proof (rule signed_take_bit_int_eq_self)
    have "0 \<le> sz * sz" by simp
    moreover have "- (2 ^ 63) \<le> (0 :: int)" by simp
    ultimately show "- (2 ^ 63) \<le> sz * sz" by (rule order_trans [rotated])
    from assms(2) show "sz * sz < 2 ^ 63" .
  qed
  ultimately show ?thesis by (simp only: go_mul_def)
qed

lemma variance_as_means:
  assumes "1 \<le> sz" "sz * sz < 2 ^ 63"
  shows "calculateColorVariance im sz =
           sqrt ((mean (\<lambda>c. (chanR c)\<^sup>2) im sz - (mean chanR im sz)\<^sup>2)
               + (mean (\<lambda>c. (chanG c)\<^sup>2) im sz - (mean chanG im sz)\<^sup>2)
               + (mean (\<lambda>c. (chanB c)\<^sup>2) im sz - (mean chanB im sz)\<^sup>2))"
proof -
  let ?t0 = "\<lparr>rTotal = 0, gTotal = 0, bTotal = 0, rSq = 0, gSq = 0, bSq = 0\<rparr>"
  note s = var_py_loop_sums [of im sz 0 ?t0]
  have "rTotal (var_py_loop im sz 0 ?t0) = pixel_sum chanR im sz"
    and "gTotal (var_py_loop im sz 0 ?t0) = pixel_sum chanG im sz"
    and "bTotal (var_py_loop im sz 0 ?t0) = pixel_sum chanB im sz"
    and "rSq (var_py_loop im sz 0 ?t0) = pixel_sum (\<lambda>c. (chanR c)\<^sup>2) im sz"
    and "gSq (var_py_loop im sz 0 ?t0) = pixel_sum (\<lambda>c. (chanG c)\<^sup>2) im sz"
    and "bSq (var_py_loop im sz 0 ?t0) = pixel_sum (\<lambda>c. (chanB c)\<^sup>2) im sz"
    using s by (simp_all add: pixel_sum_def)
  then show ?thesis
    by (simp add: calculateColorVariance_def Let_def go_mul_square [OF assms] mean_def
          power2_eq_square)
qed

text \<open>
  Claim C8.  For a size of at least 1 whose square fits the 64-bit \<open>int\<close>,
  \<open>calculateColorVariance\<close> returns the square root of the sum, over the channels R, G
  and B, of the mean of the squares minus the square of the mean, the means being taken
  over the stored bytes of the \<open>size * size\<close> pixels.
\<close>

theorem calculateColorVariance_formula:
  assumes "1 \<le> sz" "sz * sz < 2 ^ 63"
  shows "calculateColorVariance im sz =
           sqrt ((mean (\<lambda>c. (chanR c)\<^sup>2) im sz - (mean chanR im sz)\<^sup>2)
               + (mean (\<lambda>c. (chanG c)\<^sup>2) im sz - (mean chanG im sz)\<^sup>2)
               + (mean (\<lambda>c. (chanB c)\<^sup>2) im sz - (mean chanB im sz)\<^sup>2))"
  using assms by (rule variance_as_means)

lemma pixel_VariableX_2:
  "RGBAAt (rasterize VariableX 2 1) 0 py = (if 0 \<le> py \<and> py < 2 then \<lparr>R = 1, G = 1, B = 1, A = 255\<rparr> else \<lparr>R = 0, G = 0, B = 0, A = 0\<rparr>)"
  "RGBAAt (rasterize VariableX 2 1) 1 py = (if 0 \<le> py \<and> py < 2 then \<lparr>R = 128, G = 128, B = 128, A = 255\<rparr> else \<lparr>R = 0, G = 0, B = 0, A = 0\<rparr>)"
  by (simp_all add: rasterize_full RGBAAt_def in_bounds_def full_image_def in_square_def
        pixel_color_def normalize_def uint8_of_float_def trunc_def)

theorem calculateColorVariance_formula_witness:
  "calculateColorVariance (rasterize VariableX 2 1) 2 = sqrt (48387 / 4)"
proof -
  have sums: "(\<Sum>x\<in>{0..<2::int}. f x) = f 0 + f 1" for f :: "int \<Rightarrow> real"
    by (simp add: sum_int_head)
  have "calculateColorVariance (rasterize VariableX 2 1) 2 =
           sqrt ((mean (\<lambda>c. (chanR c)\<^sup>2) (rasterize VariableX 2 1) 2 - (mean chanR (rasterize VariableX 2 1) 2)\<^sup>2)
               + (mean (\<lambda>c. (chanG c)\<^sup>2) (rasterize VariableX 2 1) 2 - (mean chanG (rasterize VariableX 2 1) 2)\<^sup>2)
               + (mean (\<lambda>c. (chanB c)\<^sup>2) (rasterize VariableX 2 1) 2 - (mean chanB (rasterize VariableX 2 1) 2)\<^sup>2))"
    by (rule calculateColorVariance_formula) simp_all
  also have "\<dots> = sqrt (48387 / 4)"
    by (simp add: mean_def pixel_sum_def sums pixel_VariableX_2 chanR_def chanG_def chanB_def
          power2_eq_square)
  finally show ?thesis .
qed

section \<open>A run with the fixed source\<close>

text \<open>
  With \<open>Float64 = 0\<close> and \<open>Intn n = n - 2\<close> every interior node is a \<open>Product\<close> and every
  leaf, drawn as soon as \<open>minDepth\<close> reaches 0, is \<open>VariableY\<close>.  At size 20 the image has
  one row of bytes 255 and nineteen rows of bytes 128.
\<close>

lemma sint_small_nat:
  assumes "k \<le> 40"
  shows "sint (of_nat k :: go_int) = int k"
proof -
  have "sint (word_of_int (int k) :: go_int) = signed_take_bit 63 (int k)"
    by (subst sint_sbintrunc') simp
  also have "\<dots> = int k"
  proof (rule signed_take_bit_int_eq_self)
    have "- (2 ^ 63) \<le> (0 :: int)" by simp
    also have "0 \<le> int k" by simp
    finally show "- (2 ^ 63) \<le> int k" .
    from assms have "int k \<le> 40" by simp
    also have "(40 :: int) < 2 ^ 63" by simp
    finally show "int k < 2 ^ 63" .
  qed
  finally show ?thesis by simp
qed

lemma fixed_source_draws:
  "Float64 (fixed_source f k) s = (f, s)"
  "Intn (fixed_source f k) n s = (k n, s)"
  by (simp_all add: fixed_source_def)

lemma Generate_prodY:
  "n \<le> 10 \<Longrightarrow>
   Generate (fixed_source 0 (\<lambda>n. n - 2)) (of_nat n) (of_nat (20 + n)) () = (prodY n, ())"
proof (induction n)
  case 0
  show ?case
    by (subst Generate.simps)
       (simp add: leaf_guard_def Generate_leaf_def fixed_source_draws word_sle_eq)
next
  case (Suc n)
  define rs where "rs = fixed_source 0 (\<lambda>n :: go_int. n - 2)"
  define mn :: go_int where "mn = of_nat (Suc n)"
  define mx :: go_int where "mx = of_nat (20 + Suc n)"
  from Suc have IH: "Generate rs (mn - 1) (mx - 1) () = (prodY n, ())"
    by (simp add: rs_def mn_def mx_def)
  have "sint mn = int (Suc n)"
    unfolding mn_def using Suc.prems by (intro sint_small_nat) simp
  then have pos: "\<not> mn \<le>s 0"
    by (simp add: word_sle_eq)
  have "sint mx = int (20 + Suc n)"
    unfolding mx_def using Suc.prems by (intro sint_small_nat) simp
  then have "sint mx \<noteq> 0" by simp
  then have nz: "mx \<noteq> 0" by auto
  have guard: "leaf_guard rs mn mx () = (False, ())"
    using pos nz by (simp add: leaf_guard_def)
  have draws: "Intn rs k s = (k - 2, s)" for k s
    by (simp add: rs_def fixed_source_draws)
  have "Generate rs mn mx () = (Product (prodY n) (prodY n), ())"
    by (subst Generate.simps) (simp add: guard IH draws)
  then show ?case by (simp add: rs_def mn_def mx_def)
qed

lemma Generate_fixed_10_30:
  "Generate (fixed_source 0 (\<lambda>n. n - 2)) 10 30 () = (prodY 10, ())"
  using Generate_prodY [of 10] by simp

lemma Eval_prodY: "Eval (prodY n) x y = (y ^ (2 ^ n), y ^ (2 ^ n), y ^ (2 ^ n))"
proof (induction n)
  case 0
  show ?case by simp
next
  case (Suc n)
  have "y ^ (2 ^ n) * y ^ (2 ^ n) = y ^ (2 ^ Suc n)"
    by (simp add: power_add [symmetric] mult_2 [symmetric])
  with Suc show ?case by simp
qed

lemma small_power:
  fixes y :: real
  assumes "\<bar>y\<bar> \<le> 9 / 10"
  shows "0 \<le> y ^ 1024" "y ^ 1024 < 1 / 127"
proof -
  show "0 \<le> y ^ 1024" by simp
  have "y ^ 1024 = \<bar>y\<bar> ^ 1024" by (simp add: power_even_abs)
  also have "\<dots> \<le> (9 / 10) ^ 1024" using assms by (intro power_mono) simp_all
  also have "(9 / 10 :: real) ^ 1024 = ((9 / 10) ^ 8) ^ 128" by (simp add: power_mult [symmetric])
  also have "\<dots> \<le> (1 / 2) ^ 128" by (intro power_mono) (simp_all add: power_divide)
  also have "(1 / 2 :: real) ^ 128 \<le> (1 / 2) ^ 7" by (intro power_decreasing) simp_all
  also have "(1 / 2 :: real) ^ 7 < 1 / 127" by (simp add: power_divide)
  finally show "y ^ 1024 < 1 / 127" .
qed

lemma grey_byte:
  fixes v :: real
  assumes "0 \<le> v" "v < 1 / 127"
  shows "uint8_of_float (128 + normalize v * 127) = 128"
proof -
  from assms have n: "normalize v = v" by (simp add: normalize_def)
  from assms have "128 \<le> 128 + v * 127" "128 + v * 127 < 129" by simp_all
  then have "\<lfloor>128 + v * 127\<rfloor> = 128" by (simp add: floor_eq_iff)
  with assms show ?thesis
    by (simp only: n uint8_of_float_def trunc_def) simp
qed

lemma pixel_prodY_10:
  assumes "0 \<le> py" "py < 20"
  shows "pixel_color (prodY 10) 20 px py =
           (if py = 0 then \<lparr>R = 255, G = 255, B = 255, A = 255\<rparr>
            else \<lparr>R = 128, G = 128, B = 128, A = 255\<rparr>)"
proof (cases "py = 0")
  case True
  then show ?thesis
    by (simp add: pixel_color_def Eval_prodY normalize_def uint8_of_float_def trunc_def)
next
  case False
  define y :: real where "y = 2 * real_of_int py / real_of_int 20 - 1"
  from False assms have "1 \<le> py" "py \<le> 19" by simp_all
  then have "1 \<le> real_of_int py" "real_of_int py \<le> 19" by simp_all
  moreover have "y = real_of_int py / 10 - 1" by (simp add: y_def)
  ultimately have "- (9 / 10) \<le> y \<and> y \<le> 9 / 10" by linarith
  then have "\<bar>y\<bar> \<le> 9 / 10" by linarith
  note sp = small_power [OF this]
  have "pixel_color (prodY 10) 20 px py =
      \<lparr>R = uint8_of_float (128 + normalize (y ^ 1024) * 127),
       G = uint8_of_float (128 + normalize (y ^ 1024) * 127),
       B = uint8_of_float (128 + normalize (y ^ 1024) * 127), A = 255\<rparr>"
    by (simp add: pixel_color_def Eval_prodY y_def Let_def)
  with False show ?thesis by (simp only: grey_byte [OF sp] if_False)
qed

lemma two_tone_sum:
  assumes "\<And>px py. 0 \<le> px \<Longrightarrow> px < 20 \<Longrightarrow> 0 \<le> py \<Longrightarrow> py < 20 \<Longrightarrow>
             RGBAAt im px py = (if py = 0 then w else g)"
  shows "pixel_sum f im 20 = 20 * (f w + 19 * f g)"
proof -
  have row: "(\<Sum>px\<in>{0..<20}. f (RGBAAt im px py)) = 20 * f (if py = 0 then w else g)"
    if "0 \<le> py" "py < 20" for py
  proof -
    have "(\<Sum>px\<in>{0..<20}. f (RGBAAt im px py)) = (\<Sum>px\<in>{0..<20::int}. f (if py = 0 then w else g))"
      using that by (intro sum.cong refl) (simp add: assms)
    then show ?thesis by simp
  qed
  have "pixel_sum f im 20 = (\<Sum>py\<in>{0..<20::int}. 20 * f (if py = 0 then w else g))"
    unfolding pixel_sum_def by (intro sum.cong refl) (simp add: row)
  also have "\<dots> = 20 * f w + (\<Sum>py\<in>{0 + 1..<20::int}. 20 * f (if py = 0 then w else g))"
    by (subst sum_int_head) simp_all
  also have "(\<Sum>py\<in>{0 + 1..<20::int}. 20 * f (if py = 0 then w else g))
             = (\<Sum>py\<in>{0 + 1..<20::int}. 20 * f g)"
    by (intro sum.cong refl) simp
  also have "\<dots> = 19 * (20 * f g)" by simp
  finally show ?thesis by simp
qed

lemma metric_prodY_10:
  "calculateColorVariance (rasterize (prodY 10) 20 1) 20 = sqrt (919353 / 400)"
proof -
  let ?im = "rasterize (prodY 10) 20 1"
  have pix: "RGBAAt ?im px py =
      (if py = 0 then \<lparr>R = 255, G = 255, B = 255, A = 255\<rparr>
       else \<lparr>R = 128, G = 128, B = 128, A = 255\<rparr>)"
    if "0 \<le> px" "px < 20" "0 \<le> py" "py < 20" for px py
    using that by (simp only: RGBAAt_rasterize(1) [OF order_refl that] pixel_prodY_10)
  note tt = two_tone_sum [of ?im, OF pix]
  have "calculateColorVariance ?im 20 =
           sqrt ((mean (\<lambda>c. (chanR c)\<^sup>2) ?im 20 - (mean chanR ?im 20)\<^sup>2)
               + (mean (\<lambda>c. (chanG c)\<^sup>2) ?im 20 - (mean chanG ?im 20)\<^sup>2)
               + (mean (\<lambda>c. (chanB c)\<^sup>2) ?im 20 - (mean chanB ?im 20)\<^sup>2))"
    by (rule variance_as_means) simp_all
  also have "\<dots> = sqrt (919353 / 400)"
    by (simp add: mean_def tt chanR_def chanG_def chanB_def power2_eq_square)
  finally show ?thesis .
qed

lemma metric_prodY_10_bounds:
  "30 < calculateColorVariance (rasterize (prodY 10) 20 1) 20"
  "calculateColorVariance (rasterize (prodY 10) 20 1) 20 \<le> 50"
proof -
  have "(30 :: real) = sqrt (30\<^sup>2)" by simp
  also have "\<dots> < sqrt (919353 / 400)" by (subst real_sqrt_less_iff) simp
  finally show "30 < calculateColorVariance (rasterize (prodY 10) 20 1) 20"
    by (simp only: metric_prodY_10)
  have "sqrt (919353 / 400) \<le> sqrt (50\<^sup>2)" by (subst real_sqrt_le_iff) simp
  also have "\<dots> = (50 :: real)" by simp
  finally show "calculateColorVariance (rasterize (prodY 10) 20 1) 20 \<le> 50"
    by (simp only: metric_prodY_10)
qed

section \<open>The quality gate\<close>

lemma attempt_fields:
  "out (attempt rs nw seed sz st) = out st @ [Tree_printed seed (fst (Generate rs 10 30 (rng st)))]"
  "variance (attempt rs nw seed sz st) = metric_of (fst (Generate rs 10 30 (rng st))) sz nw"
  "img (attempt rs nw seed sz st) = Some (rasterize (fst (Generate rs 10 30 (rng st))) sz nw)"
  "accepted (attempt rs nw seed sz st) = accepted st"
  by (simp_all add: attempt_def Let_def metric_of_def split: prod.splits)

lemma attempts_loop_result:
  assumes "k < 3" "\<not> accepted st" "Warning \<notin> set (out st)"
  shows "\<exists>ts. gate_result sz nw (3 - k) (out st) (attempts_loop rs nw seed sz k st) ts"
  using assms
proof (induction rs nw seed sz k st rule: attempts_loop.induct)
  case (1 rs nw seed sz k st)
  let ?art = "fst (Generate rs 10 30 (rng st))"
  let ?st' = "attempt rs nw seed sz st"
  let ?st'' = "?st'\<lparr>out := out ?st' @ [Retrying]\<rparr>"
  note k = \<open>k < 3\<close>
  show ?case
  proof (cases "variance ?st' > 30")
    case True
    then have res: "attempts_loop rs nw seed sz k st = ?st'\<lparr>accepted := True\<rparr>"
      using k by (subst attempts_loop.simps) (simp add: Let_def)
    have "gate_result sz nw (3 - k) (out st) (?st'\<lparr>accepted := True\<rparr>) [?art]"
      using True k "1.prems"(3)
      by (simp add: gate_result_def attempt_fields trees_of_append)
    then show ?thesis unfolding res by blast
  next
    case False
    then have res: "attempts_loop rs nw seed sz k st = attempts_loop rs nw seed sz (k + 1) ?st''"
      using k by (subst attempts_loop.simps) (simp add: Let_def)
    show ?thesis
    proof (cases "k + 1 < 3")
      case last: False
      then have "attempts_loop rs nw seed sz (k + 1) ?st'' = ?st''"
        by (subst attempts_loop.simps) simp
      moreover from k last have "3 - k = Suc 0" by linarith
      then have "gate_result sz nw (3 - k) (out st) ?st'' [?art]"
        using False "1.prems"(2,3)
        by (simp add: gate_result_def attempt_fields trees_of_append)
      ultimately show ?thesis unfolding res by auto
    next
      case more: True
      have "\<exists>ts. gate_result sz nw (3 - (k + 1)) (out ?st'')
                  (attempts_loop rs nw seed sz (k + 1) ?st'') ts"
        using "1.IH" [OF k refl _ more] False "1.prems"(2,3)
        by (simp add: attempt_fields)
      then obtain ts where ts: "gate_result sz nw (3 - (k + 1)) (out ?st'')
                  (attempts_loop rs nw seed sz (k + 1) ?st'') ts" ..
      then have "ts \<noteq> []" by (simp add: gate_result_def)
      then have bl: "butlast (?art # ts) = ?art # butlast ts" "last (?art # ts) = last ts"
        by simp_all
      have "gate_result sz nw (3 - k) (out st)
               (attempts_loop rs nw seed sz (k + 1) ?st'') (?art # ts)"
        using ts False more
        by (simp add: gate_result_def attempt_fields trees_of_append bl del: butlast.simps last.simps)
           linarith
      then show ?thesis unfolding res by blast
    qed
  qed
qed

text \<open>
  Claim C3, as amended.  \<open>CreateImage\<close> builds between one and three trees; every tree
  before the last had a metric of at most 30, so the loop stops at the first metric above
  30; the image and the metric returned are those of the last tree; the loop was left by
  \<open>break\<close> exactly when the final metric exceeds 30, and otherwise three trees were built.
  The warning is printed exactly when the final metric is at most 50: in every exhausted
  case, and also for an image accepted with a metric above 30 and at most 50.
\<close>

theorem quality_gate_outcome:
  "let r = CreateImage rs numWorkers seed sz; ts = trees_of (out r) in
     ts \<noteq> [] \<and> length ts \<le> 3 \<and>
     list_all (\<lambda>art. metric_of art sz numWorkers \<le> 30) (butlast ts) \<and>
     variance r = metric_of (last ts) sz numWorkers \<and>
     img r = Some (rasterize (last ts) sz numWorkers) \<and>
     (accepted r \<longleftrightarrow> 30 < variance r) \<and>
     (accepted r \<or> length ts = 3) \<and>
     (Warning \<in> set (out r) \<longleftrightarrow> variance r \<le> 50)"
proof -
  let ?st0 = "\<lparr>img = None, variance = 0, rng = Seed rs (ucast (hash seed)), out = [],
               accepted = False\<rparr>"
  let ?res = "attempts_loop rs numWorkers seed sz 0 ?st0"
  have "\<exists>ts. gate_result sz numWorkers (3 - 0) (out ?st0) ?res ts"
    by (rule attempts_loop_result) simp_all
  then obtain ts where ts: "gate_result sz numWorkers 3 [] ?res ts" by auto
  then have t: "trees_of (out ?res) = ts" by (simp add: gate_result_def)
  show ?thesis
  proof (cases "variance ?res \<le> 50")
    case True
    then have r: "CreateImage rs numWorkers seed sz = ?res\<lparr>out := out ?res @ [Warning]\<rparr>"
      by (simp add: CreateImage_def Let_def)
    show ?thesis
      unfolding r using ts True by (auto simp: gate_result_def trees_of_append Let_def)
  next
    case False
    then have r: "CreateImage rs numWorkers seed sz = ?res"
      by (simp add: CreateImage_def Let_def)
    show ?thesis
      unfolding r using ts False by (auto simp: gate_result_def Let_def)
  qed
qed

text \<open>
  The claim as stated (no warning for an accepted image) fails for the fixed source at
  size 20: the first tree has the metric \<open>sqrt (919353 / 400)\<close>, about 47.9, the image is
  accepted at once, and the warning is printed.
\<close>

theorem warning_after_acceptance_counterexample:
  "accepted (CreateImage (fixed_source 0 (\<lambda>n. n - 2)) 1 ''adamenger'' 20) \<and>
   30 < variance (CreateImage (fixed_source 0 (\<lambda>n. n - 2)) 1 ''adamenger'' 20) \<and>
   trees_of (out (CreateImage (fixed_source 0 (\<lambda>n. n - 2)) 1 ''adamenger'' 20)) = [prodY 10] \<and>
   Warning \<in> set (out (CreateImage (fixed_source 0 (\<lambda>n. n - 2)) 1 ''adamenger'' 20))"
proof -
  let ?rs = "fixed_source 0 (\<lambda>n :: go_int. n - 2)"
  let ?st0 = "\<lparr>img = None, variance = 0, rng = Seed ?rs (ucast (hash ''adamenger'')), out = [],
               accepted = False\<rparr>"
  let ?st1 = "attempt ?rs 1 ''adamenger'' 20 ?st0"
  have g: "Generate ?rs 10 30 (rng ?st0) = (prodY 10, ())"
    using Generate_fixed_10_30 by simp
  have v: "variance ?st1 = calculateColorVariance (rasterize (prodY 10) 20 1) 20"
    by (simp only: attempt_fields g fst_conv metric_of_def)
  have o: "out ?st1 = [Tree_printed ''adamenger'' (prodY 10)]"
    by (simp only: attempt_fields g fst_conv) simp
  from v metric_prodY_10_bounds have b: "30 < variance ?st1" "variance ?st1 \<le> 50"
    by simp_all
  then have loop: "attempts_loop ?rs 1 ''adamenger'' 20 0 ?st0 = ?st1\<lparr>accepted := True\<rparr>"
    by (subst attempts_loop.simps) (simp add: Let_def)
  have "CreateImage ?rs 1 ''adamenger'' 20 =
          ?st1\<lparr>accepted := True, out := out ?st1 @ [Warning]\<rparr>"
    unfolding CreateImage_def loop using b by (simp add: Let_def)
  then show ?thesis using b o by simp
qed

section \<open>A run that stores a truncated byte\<close>







section \<open>The denominator of \<open>Well\<close>\<close>

text \<open>
  Over the real numbers the denominator \<open>1 + v\<^sup>2\<close> of \<open>Well\<close> is at least 1, so the
  division is defined for every input.
\<close>

lemma Well_denominator_ge_1: "1 \<le> 1 + v\<^sup>2" "1 + v\<^sup>2 \<noteq> 0" for v :: real
proof -
  show "1 \<le> 1 + v\<^sup>2" by simp
  then show "1 + v\<^sup>2 \<noteq> 0" by linarith
qed

end
